theory Spec2Isabelle
  imports Complex_Main "HOL-Library.AList"
begin

section \<open>The Sudoku board of project2/sudoku.py\<close>

text \<open>
  A cell is addressed by the two indices of \<^verbatim>\<open>self._board[x][y]\<close>; the first index
  selects a row of the array, the second a position in that row. A move is the tuple
  \<^verbatim>\<open>(x, y, val)\<close>. Cell values are Python integers, \<^verbatim>\<open>EMPTY_SPACE = 0\<close>.
\<close>

type_synonym cell = "nat \<times> nat"
type_synonym move = "nat \<times> nat \<times> int"
type_synonym grid = "int list list"

text \<open>
  \<^verbatim>\<open>_move_cache\<close> is a Python dict from coordinates to sets of values. A dict keeps its
  keys in insertion order, assignment to an existing key keeps the key's position, and
  \<^verbatim>\<open>cache_get_legal_moves\<close> sorts the items stably, so the dict is an association list
  handled with \<open>map_of\<close>, \<open>AList.update\<close> and \<open>AList.delete\<close>.
\<close>

type_synonym cache = "(cell \<times> int set) list"

datatype Version = NAIVE | IMPROVED | SORTED | STORE_LEGAL

datatype error =
    InvalidIndex                \<comment> \<open>\<^verbatim>\<open>Exception('Invalid row: ...')\<close> of \<^verbatim>\<open>get_row\<close>\<close>
  | InconsistentCompleteState   \<comment> \<open>\<^verbatim>\<open>Exception("Board complete but no in legal state.")\<close>\<close>
  | IndexError                  \<comment> \<open>an array index outside the board\<close>
  | OverflowError               \<comment> \<open>a value that does not fit a cell of the \<^verbatim>\<open>int64\<close> array\<close>
  | KeyError                    \<comment> \<open>\<^verbatim>\<open>del\<close> of a key the dict does not hold\<close>
  | QueueEmpty                  \<comment> \<open>\<^verbatim>\<open>queue.Empty\<close> of \<^verbatim>\<open>LifoQueue.get(False)\<close>\<close>

text \<open>
  The attributes of a \<^verbatim>\<open>SudokuBoard\<close> object. \<^verbatim>\<open>size\<close> is called \<open>board_size\<close> here.
  \<^verbatim>\<open>last_move\<close> and \<^verbatim>\<open>_move_cache\<close> are created on first assignment, so both are
  optional: \<open>None\<close> is \<^verbatim>\<open>not hasattr(self, "_move_cache")\<close>. The seed only feeds the
  random generator of \<^verbatim>\<open>remove_random_number\<close> and is left out.
\<close>

record SudokuBoard =
  board_size :: nat
  size_sqrt :: nat
  board :: grid
  last_move :: "move option"
  move_cache :: "cache option"

definition EMPTY_SPACE :: int where
  "EMPTY_SPACE = 0"

text \<open>\<^verbatim>\<open>__init__(n)\<close>: an empty board of side \<open>n * n\<close>.\<close>

definition init_board :: "nat \<Rightarrow> SudokuBoard" where
  "init_board n =
     \<lparr>board_size = n * n, size_sqrt = n,
      board = replicate (n * n) (replicate (n * n) EMPTY_SPACE),
      last_move = None, move_cache = None\<rparr>"

text \<open>
  The shape every board built by \<^verbatim>\<open>__init__\<close> has and every method keeps: a square array
  of side \<open>size = size_sqrt\<^sup>2\<close>. With \<open>size_sqrt = 0\<close> the source's
  \<^verbatim>\<open>range(0, self.size, self.size_sqrt)\<close> raises a ValueError, so the subgrid width is
  positive.
\<close>

definition wf_board :: "SudokuBoard \<Rightarrow> bool" where
  "wf_board b \<longleftrightarrow>
     0 < size_sqrt b \<and> board_size b = size_sqrt b * size_sqrt b \<and>
     length (board b) = board_size b \<and>
     list_all (\<lambda>row. length row = board_size b) (board b)"

subsection \<open>Fingerprint\<close>

text \<open>
  \<^verbatim>\<open>__hash__\<close> feeds the raw bytes of the array to MD5, reads the hex digest as an
  integer and reduces it modulo \<open>10\<^sup>16\<close>. The digest is a library function outside the
  repository; it is a parameter \<open>md5\<close> that maps the cell data, in the row-major order
  of \<^verbatim>\<open>tobytes()\<close>, to the integer value of the digest.
\<close>

definition tobytes :: "grid \<Rightarrow> int list" where
  "tobytes g = concat g"

definition hash_board :: "(int list \<Rightarrow> int) \<Rightarrow> SudokuBoard \<Rightarrow> int" where
  "hash_board md5 b = md5 (tobytes (board b)) mod 10 ^ 16"

subsection \<open>Row accessor\<close>

text \<open>
  \<^verbatim>\<open>get_row\<close> takes any Python object: \<open>PyInt i\<close> is an \<^verbatim>\<open>int\<close>, \<open>PyOther\<close> anything that
  fails \<^verbatim>\<open>isinstance(row, int)\<close>.
\<close>

datatype pyobj = PyInt int | PyOther

definition get_row :: "SudokuBoard \<Rightarrow> pyobj \<Rightarrow> error + int list" where
  "get_row b row =
     (case row of
        PyOther \<Rightarrow> Inl InvalidIndex
      | PyInt i \<Rightarrow>
          if i < 0 \<or> i \<ge> int (board_size b) then Inl InvalidIndex
          else Inr (map (\<lambda>x. board b ! x ! nat i) [0..<board_size b]))"

subsection \<open>Legality\<close>

text \<open>
  \<^verbatim>\<open>np.unique\<close> returns the sorted distinct elements; \<^verbatim>\<open>row[row != 0]\<close> keeps the nonzero
  entries and \<^verbatim>\<open>np.nonzero(row)[0]\<close> has one index per nonzero entry. A group passes when
  both lengths agree.
\<close>

definition np_unique :: "int list \<Rightarrow> int list" where
  "np_unique xs = sort (remdups xs)"

definition unique_nonzero :: "int list \<Rightarrow> bool" where
  "unique_nonzero xs \<longleftrightarrow>
     \<not> (length (np_unique (filter (\<lambda>v. v \<noteq> 0) xs)) \<noteq> length (filter (\<lambda>v. v \<noteq> 0) xs))"

text \<open>\<^verbatim>\<open>self._board.T\<close>: the columns of the square array.\<close>

definition board_T :: "SudokuBoard \<Rightarrow> grid" where
  "board_T b = map (\<lambda>y. map (\<lambda>row. row ! y) (board b)) [0..<board_size b]"

text \<open>\<^verbatim>\<open>range(0, size, step)\<close> for a positive step.\<close>

definition range_step :: "nat \<Rightarrow> nat \<Rightarrow> nat list" where
  "range_step sz step = map (\<lambda>k. k * step) [0..<(sz + step - 1) div step]"

text \<open>
  \<^verbatim>\<open>self._board[i:i+n, j:j+n]\<close>, flattened row by row as the boolean mask and
  \<^verbatim>\<open>np.unique\<close> both do.
\<close>

definition subgrid_at :: "SudokuBoard \<Rightarrow> nat \<Rightarrow> nat \<Rightarrow> int list" where
  "subgrid_at b i j =
     concat (map (\<lambda>row. take (size_sqrt b) (drop j row)) (take (size_sqrt b) (drop i (board b))))"

definition is_legal_state :: "SudokuBoard \<Rightarrow> bool" where
  "is_legal_state b \<longleftrightarrow>
     list_all unique_nonzero (board b) \<and>
     list_all unique_nonzero (board_T b) \<and>
     list_all (\<lambda>i. list_all (\<lambda>j. unique_nonzero (subgrid_at b i j))
                      (range_step (board_size b) (size_sqrt b)))
              (range_step (board_size b) (size_sqrt b))"

subsection \<open>Completion\<close>

definition is_complete :: "SudokuBoard \<Rightarrow> error + bool" where
  "is_complete b =
     (if list_ex (\<lambda>x. list_ex (\<lambda>y. board b ! x ! y = EMPTY_SPACE) [0..<board_size b])
           [0..<board_size b]
      then Inr False
      else if is_legal_state b then Inr True
      else Inl InconsistentCompleteState)"

subsection \<open>Candidate sets\<close>

text \<open>
  \<^verbatim>\<open>improved_get_legal_moves\<close> and \<^verbatim>\<open>get_move_cache\<close> start with the same four lines:
  the allowed values and, for every row, column and subgrid, the allowed values it does not
  hold yet.
\<close>

definition allowed_values :: "SudokuBoard \<Rightarrow> int set" where
  "allowed_values b = set [1..int (board_size b)]"

definition rows_missing :: "SudokuBoard \<Rightarrow> int set list" where
  "rows_missing b = map (\<lambda>row. allowed_values b - set row) (board b)"

definition cols_missing :: "SudokuBoard \<Rightarrow> int set list" where
  "cols_missing b = map (\<lambda>col. allowed_values b - set col) (board_T b)"

text \<open>The generator \<^verbatim>\<open>sub_grids\<close>: one sorted list of distinct values per subgrid.\<close>

definition sub_grids :: "SudokuBoard \<Rightarrow> int list list" where
  "sub_grids b =
     map (\<lambda>(i, j). np_unique (subgrid_at b i j))
       (List.product (range_step (board_size b) (size_sqrt b))
                     (range_step (board_size b) (size_sqrt b)))"

definition subgrids_missing :: "SudokuBoard \<Rightarrow> int set list" where
  "subgrids_missing b = map (\<lambda>subgrid. allowed_values b - set subgrid) (sub_grids b)"

definition get_subgrid_index :: "SudokuBoard \<Rightarrow> nat \<Rightarrow> nat \<Rightarrow> nat" where
  "get_subgrid_index b x y = (x div size_sqrt b) * size_sqrt b + (y div size_sqrt b)"

text \<open>\<^verbatim>\<open>rows[x].intersection(cols[y]).intersection(subgrid)\<close>\<close>

definition possible_values :: "SudokuBoard \<Rightarrow> nat \<Rightarrow> nat \<Rightarrow> int set" where
  "possible_values b x y =
     (rows_missing b ! x \<inter> cols_missing b ! y) \<inter> subgrids_missing b ! get_subgrid_index b x y"

text \<open>The cells in the order of the two nested \<^verbatim>\<open>range(self.size)\<close> loops.\<close>

definition cells :: "SudokuBoard \<Rightarrow> cell list" where
  "cells b = List.product [0..<board_size b] [0..<board_size b]"

definition empty_cells :: "SudokuBoard \<Rightarrow> cell list" where
  "empty_cells b = filter (\<lambda>(x, y). board b ! x ! y = EMPTY_SPACE) (cells b)"

subsection \<open>The candidate cache\<close>

text \<open>
  \<^verbatim>\<open>get_move_cache()\<close> without a field: every empty cell gets its candidate set. Each key
  is assigned once, so the dict holds the empty cells in loop order.
\<close>

definition get_move_cache :: "SudokuBoard \<Rightarrow> cache" where
  "get_move_cache b = map (\<lambda>(x, y). ((x, y), possible_values b x y)) (empty_cells b)"

text \<open>
  \<^verbatim>\<open>get_affected_coordinates\<close> returns three Python sets; they are only iterated, and
  the loop over each commutes, so each is the list of its elements.
\<close>

definition get_affected_coordinates :: "SudokuBoard \<Rightarrow> nat \<Rightarrow> nat \<Rightarrow> cell list list" where
  "get_affected_coordinates b x y =
     (let i_start = x - x mod size_sqrt b;
          j_start = y - y mod size_sqrt b
      in [map (\<lambda>j. (x, j)) [0..<board_size b],
          map (\<lambda>j. (j, y)) [0..<board_size b],
          map (\<lambda>(i, j). (i_start + i, j_start + j))
            (List.product [0..<size_sqrt b] [0..<size_sqrt b])])"

text \<open>
  One pass of the inner loop of \<^verbatim>\<open>update_move_cache\<close>: a field the cache does not track
  is skipped; a tracked one is counted, loses \<open>val\<close>, and adds what it keeps to
  \<open>remaining\<close>.
\<close>

definition update_field :: "int \<Rightarrow> cell \<Rightarrow> cache \<times> int set \<times> nat \<Rightarrow> cache \<times> int set \<times> nat" where
  "update_field val field st =
     (case st of (c, remaining, tracked) \<Rightarrow>
        (case map_of c field of
           None \<Rightarrow> (c, remaining, tracked)
         | Some s \<Rightarrow> (AList.update field (s - {val}) c, remaining \<union> (s - {val}), tracked + 1)))"

text \<open>
  One group (\<open>grp\<close>): after the loop, fewer remaining values than tracked fields
  (the counter \<^verbatim>\<open>fields\<close>, here \<open>tracked\<close>) writes the empty set under the key \<open>(0, 0)\<close>.
\<close>

definition update_group :: "int \<Rightarrow> cell list \<Rightarrow> cache \<Rightarrow> cache" where
  "update_group val grp c =
     (case fold (update_field val) grp (c, {}, 0) of
        (c', remaining, tracked) \<Rightarrow>
          if card remaining < tracked then AList.update (0, 0) {} c' else c')"

definition update_move_cache :: "SudokuBoard \<Rightarrow> move \<Rightarrow> cache \<Rightarrow> cache" where
  "update_move_cache b m c =
     (case m of (x, y, val) \<Rightarrow> fold (update_group val) (get_affected_coordinates b x y) c)"

subsection \<open>Applying and undoing a move\<close>

text \<open>
  Coordinates are natural numbers; an index outside the array is the IndexError of numpy.
  \<^verbatim>\<open>_board\<close> is a numpy array of 64-bit signed integers: the assignment
  \<^verbatim>\<open>self._board[x][y] = val\<close> locates the cell first and converts \<open>val\<close> second, and a
  Python integer outside \<open>[-2\<^sup>6\<^sup>3, 2\<^sup>6\<^sup>3)\<close> raises OverflowError with nothing written.
  \<^verbatim>\<open>del self._move_cache[(x,y)]\<close> raises KeyError when the key is missing; the cell has
  been written by then, but the exception leaves no board to continue with.
\<close>

definition fits_int64 :: "int \<Rightarrow> bool" where
  "fits_int64 v \<longleftrightarrow> - (2 ^ 63) \<le> v \<and> v < 2 ^ 63"

definition set_cell :: "grid \<Rightarrow> nat \<Rightarrow> nat \<Rightarrow> int \<Rightarrow> grid" where
  "set_cell g x y v = g[x := (g ! x)[y := v]]"

definition apply_move :: "SudokuBoard \<Rightarrow> move \<Rightarrow> error + SudokuBoard" where
  "apply_move b m =
     (case m of (x, y, val) \<Rightarrow>
        if x < length (board b) \<and> y < length (board b ! x) then
          if fits_int64 val then
            (let b1 = b\<lparr>board := set_cell (board b) x y val, last_move := Some m\<rparr>
             in case move_cache b1 of
                  None \<Rightarrow> Inr b1
                | Some c \<Rightarrow>
                    if map_of c (x, y) = None then Inl KeyError
                    else Inr (b1\<lparr>move_cache :=
                                   Some (update_move_cache b1 m (AList.delete (x, y) c))\<rparr>))
          else Inl OverflowError
        else Inl IndexError)"

definition undo_move :: "SudokuBoard \<Rightarrow> move \<Rightarrow> error + SudokuBoard" where
  "undo_move b m =
     (case m of (x, y, val) \<Rightarrow>
        if x < length (board b) \<and> y < length (board b ! x) then
          (let b1 = b\<lparr>board := set_cell (board b) x y EMPTY_SPACE\<rparr>
           in case move_cache b1 of
                None \<Rightarrow> Inr b1
              | Some c \<Rightarrow> Inr (b1\<lparr>move_cache := Some (get_move_cache b1)\<rparr>))
        else Inl IndexError)"

section \<open>Move generation\<close>

subsection \<open>Naive\<close>

text \<open>
  The innermost loop of \<^verbatim>\<open>naive_get_legal_moves\<close>: write \<open>i\<close> into the cell and keep the
  move when the whole board is legal. The cell is reset to \<open>EMPTY_SPACE\<close> after the
  loop and was empty before it, so the board leaves the function as it entered and
  each trial sees the entry board with the one cell written.
\<close>

definition naive_trial ::
  "SudokuBoard \<Rightarrow> nat \<Rightarrow> nat \<Rightarrow> int \<Rightarrow> move list \<times> cell set \<Rightarrow> move list \<times> cell set" where
  "naive_trial b x y i st =
     (case st of (legal_moves, flds) \<Rightarrow>
        if is_legal_state (b\<lparr>board := set_cell (board b) x y i\<rparr>)
        then (legal_moves @ [(x, y, i)], insert (x, y) flds)
        else (legal_moves, flds))"

definition naive_field ::
  "SudokuBoard \<Rightarrow> cell \<Rightarrow> move list \<times> cell set \<times> nat \<Rightarrow> move list \<times> cell set \<times> nat" where
  "naive_field b xy st =
     (case xy of (x, y) \<Rightarrow>
      case st of (legal_moves, flds, empty_fields) \<Rightarrow>
        if board b ! x ! y = EMPTY_SPACE then
          (case fold (naive_trial b x y) [1..int (board_size b)] (legal_moves, flds) of
             (legal_moves', flds') \<Rightarrow> (legal_moves', flds', empty_fields + 1))
        else (legal_moves, flds, empty_fields))"

definition naive_get_legal_moves :: "SudokuBoard \<Rightarrow> move list" where
  "naive_get_legal_moves b =
     (case fold (naive_field b) (cells b) ([], {}, 0) of
        (legal_moves, flds, empty_fields) \<Rightarrow>
          if card flds = empty_fields then legal_moves else [])"

subsection \<open>Improved and Sorted\<close>

text \<open>
  \<^verbatim>\<open>legal_moves.setdefault((x, y), []).append((x, y, i))\<close> on the insertion-ordered dict.
\<close>

definition setdefault_append ::
  "cell \<Rightarrow> move \<Rightarrow> (cell \<times> move list) list \<Rightarrow> (cell \<times> move list) list" where
  "setdefault_append k m d =
     (case map_of d k of
        None \<Rightarrow> d @ [(k, [m])]
      | Some ms \<Rightarrow> AList.update k (ms @ [m]) d)"

text \<open>
  The double loop with its early \<^verbatim>\<open>return []\<close> (\<open>None\<close> here). Python leaves the
  iteration order of a set open; the model walks \<open>possible_values\<close> in ascending order,
  and no theorem below depends on the order inside one cell's moves.
\<close>

fun improved_loop ::
  "SudokuBoard \<Rightarrow> cell list \<Rightarrow> (cell \<times> move list) list \<Rightarrow> (cell \<times> move list) list option" where
  "improved_loop b [] legal_moves = Some legal_moves"
| "improved_loop b ((x, y) # cs) legal_moves =
     (if board b ! x ! y = EMPTY_SPACE then
        (if possible_values b x y = {} then None
         else improved_loop b cs
                (fold (\<lambda>i. setdefault_append (x, y) (x, y, i))
                   (sorted_list_of_set (possible_values b x y)) legal_moves))
      else improved_loop b cs legal_moves)"

text \<open>
  \<^verbatim>\<open>sorted(xs, reverse=True, key=k)\<close>: CPython reverses the list, sorts it stably in
  ascending key order and reverses the result, so equal keys keep their original order.
\<close>

definition py_sorted_reverse :: "('a \<Rightarrow> nat) \<Rightarrow> 'a list \<Rightarrow> 'a list" where
  "py_sorted_reverse k xs = rev (sort_key k (rev xs))"

definition improved_get_legal_moves :: "SudokuBoard \<Rightarrow> Version \<Rightarrow> move list" where
  "improved_get_legal_moves b version =
     (case improved_loop b (cells b) [] of
        None \<Rightarrow> []
      | Some legal_moves \<Rightarrow>
          if version = SORTED
          then concat (py_sorted_reverse length (map snd legal_moves))
          else concat (map snd legal_moves))"

subsection \<open>Store-Legal (cached)\<close>

fun cache_loop :: "cache \<Rightarrow> move list \<Rightarrow> move list" where
  "cache_loop [] legal_moves = legal_moves"
| "cache_loop (((x, y), moves) # items) legal_moves =
     (if moves = {} then []
      else cache_loop items (legal_moves @ map (\<lambda>v. (x, y, v)) (sorted_list_of_set moves)))"

text \<open>
  \<^verbatim>\<open>cache_get_legal_moves\<close> attaches a freshly built cache to a board that has none, so
  it returns the board next to the moves.
\<close>

definition cache_get_legal_moves :: "SudokuBoard \<Rightarrow> move list \<times> SudokuBoard" where
  "cache_get_legal_moves b =
     (let c = (case move_cache b of None \<Rightarrow> get_move_cache b | Some c \<Rightarrow> c)
      in (cache_loop (py_sorted_reverse (\<lambda>item. card (snd item)) c) [],
          b\<lparr>move_cache := Some c\<rparr>))"

definition get_legal_moves :: "SudokuBoard \<Rightarrow> Version \<Rightarrow> move list \<times> SudokuBoard" where
  "get_legal_moves b version =
     (if version = NAIVE then (naive_get_legal_moves b, b)
      else if version = STORE_LEGAL then cache_get_legal_moves b
      else (improved_get_legal_moves b version, b))"

section \<open>The search drivers of project2/dfs.py\<close>

text \<open>
  The statistics of a \<^verbatim>\<open>SudokuDFS\<close> object. \<^verbatim>\<open>visited_states\<close> is a dict keyed by board
  objects; every value is \<^verbatim>\<open>True\<close>. An entry keeps the fingerprint its key had when it was
  inserted, and the dict keeps its entries in insertion order, so the dict is the list of
  the fingerprints stored, oldest first. The branching factor is a Python float; it is an
  exact real here.
  \<^verbatim>\<open>start_time\<close> and \<^verbatim>\<open>print_stats\<close> (console output and wall-clock arithmetic) are
  left out.
\<close>

record SudokuDFS =
  visited_states :: "int list"
  revistited_states :: nat
  node_expansions :: nat
  branching_factor :: real
  branches :: nat
  invalid_states :: nat

definition reset_stats :: SudokuDFS where
  "reset_stats =
     \<lparr>visited_states = [], revistited_states = 0, node_expansions = 0,
      branching_factor = 0, branches = 0, invalid_states = 0\<rparr>"

definition update_branching_factor :: "nat \<Rightarrow> SudokuDFS \<Rightarrow> SudokuDFS" where
  "update_branching_factor val d =
     (if val = 0 then d\<lparr>invalid_states := invalid_states d + 1\<rparr>
      else if branching_factor d = 0 then d\<lparr>branches := 1, branching_factor := real val\<rparr>
      else d\<lparr>branches := branches d + 1,
             branching_factor :=
               branching_factor d + ((real val - branching_factor d) / real (branches d + 1))\<rparr>)"

subsection \<open>Iterative driver\<close>

datatype ('r, 's) iteration = Done 'r | Continue 's

type_synonym outcome = "(error + SudokuBoard) \<times> SudokuDFS"

text \<open>
  The \<^verbatim>\<open>for move in ...\<close> loop of \<^verbatim>\<open>solve\<close>: each move is applied to a deep copy of the
  popped state and the copy is pushed. The head of the list is the top of the
  \<^verbatim>\<open>LifoQueue\<close>.
\<close>

fun push_moves ::
  "SudokuBoard \<Rightarrow> move list \<Rightarrow> SudokuBoard list \<times> SudokuDFS \<Rightarrow>
   (outcome, SudokuBoard list \<times> SudokuDFS) iteration" where
  "push_moves state [] (queue, d) = Continue (queue, d)"
| "push_moves state (move # moves) (queue, d) =
     (case apply_move state move of
        Inl e \<Rightarrow> Done (Inl e, d\<lparr>branches := branches d + 1\<rparr>)
      | Inr next_state \<Rightarrow>
          push_moves state moves (next_state # queue, d\<lparr>branches := branches d + 1\<rparr>))"

text \<open>
  One pass through the body of \<^verbatim>\<open>while True\<close>. \<^verbatim>\<open>queue.get(False)\<close> on an empty queue
  raises \<^verbatim>\<open>queue.Empty\<close>, which nothing catches. Every state on the queue is a deep copy
  of its own that is looked up once, before it is inserted, and is not written after its
  insertion; so \<^verbatim>\<open>state in self.visited_states\<close> finds an entry exactly when a stored
  fingerprint equals the fingerprint of \<open>state\<close> (\<^verbatim>\<open>__eq__\<close> compares fingerprints).
\<close>

definition solve_step ::
  "(int list \<Rightarrow> int) \<Rightarrow> Version \<Rightarrow> SudokuBoard list \<times> SudokuDFS \<Rightarrow>
   (outcome, SudokuBoard list \<times> SudokuDFS) iteration" where
  "solve_step md5 version st =
     (case st of (queue, d) \<Rightarrow>
      case queue of
        [] \<Rightarrow> Done (Inl QueueEmpty, d)
      | state # rest \<Rightarrow>
          if hash_board md5 state \<in> set (visited_states d) then Continue (rest, d)
          else
            (let d1 = d\<lparr>visited_states := visited_states d @ [hash_board md5 state],
                         node_expansions := node_expansions d + 1\<rparr>
             in case is_complete state of
                  Inl e \<Rightarrow> Done (Inl e, d1)
                | Inr True \<Rightarrow> Done (Inr state, d1)
                | Inr False \<Rightarrow>
                    (case get_legal_moves state version of
                       (moves, state') \<Rightarrow> push_moves state' moves (rest, d1))))"

text \<open>The loop, with a bound on the number of passes; \<open>None\<close> is "still running".\<close>

fun solve_loop ::
  "(int list \<Rightarrow> int) \<Rightarrow> Version \<Rightarrow> nat \<Rightarrow> SudokuBoard list \<times> SudokuDFS \<Rightarrow> outcome option" where
  "solve_loop md5 version 0 st = None"
| "solve_loop md5 version (Suc n) st =
     (case solve_step md5 version st of
        Done r \<Rightarrow> Some r
      | Continue st' \<Rightarrow> solve_loop md5 version n st')"

text \<open>The loop state after \<open>k\<close> passes, when none of them has left the loop.\<close>

fun solve_steps ::
  "(int list \<Rightarrow> int) \<Rightarrow> Version \<Rightarrow> nat \<Rightarrow> SudokuBoard list \<times> SudokuDFS \<Rightarrow>
   (SudokuBoard list \<times> SudokuDFS) option" where
  "solve_steps md5 version 0 st = Some st"
| "solve_steps md5 version (Suc k) st =
     (case solve_step md5 version st of
        Done r \<Rightarrow> None
      | Continue st' \<Rightarrow> solve_steps md5 version k st')"

definition solve_init :: "SudokuBoard \<Rightarrow> SudokuBoard list \<times> SudokuDFS" where
  "solve_init b = ([b], reset_stats)"

definition solve :: "(int list \<Rightarrow> int) \<Rightarrow> Version \<Rightarrow> nat \<Rightarrow> SudokuBoard \<Rightarrow> outcome option" where
  "solve md5 version fuel b = solve_loop md5 version fuel (solve_init b)"

subsection \<open>Recursive driver\<close>

text \<open>
  \<^verbatim>\<open>solve_recursive\<close> works on one shared board object and returns either \<^verbatim>\<open>None\<close> or
  that object, so its result is a flag next to the board and the statistics it leaves
  behind. The argument \<open>n\<close> bounds the recursion depth; \<open>None\<close> is "bound reached".

  The dict is keyed here with that one object, which is written between the lookups. A
  dict lookup walks the probe sequence of the current fingerprint through the hash table
  and accepts an entry whose key is the very object looked up before it compares any
  fingerprint. So \<^verbatim>\<open>state in self.visited_states\<close> is true when the current fingerprint is
  stored, and also when the walk meets an entry stored under another fingerprint. Whether
  it does is decided by the layout of the table, which is a function of the fingerprints
  inserted so far, in their order: \<open>probe_hit h hs\<close> stands for "the walk for \<open>h\<close> through
  the table holding \<open>hs\<close> meets an entry", an unknown of the model, and the theorems hold
  for every such function. An empty dict has no entry to meet. After a lookup that found
  nothing, the assignment adds a new entry under the current fingerprint.
\<close>

datatype found = NoResult | Found

type_synonym rec_outcome = "error + (found \<times> SudokuBoard \<times> SudokuDFS)"

definition lookup_visited :: "(int \<Rightarrow> int list \<Rightarrow> bool) \<Rightarrow> int \<Rightarrow> int list \<Rightarrow> bool" where
  "lookup_visited probe_hit h hs \<longleftrightarrow> h \<in> set hs \<or> (hs \<noteq> [] \<and> probe_hit h hs)"

fun solve_recursive ::
      "(int list \<Rightarrow> int) \<Rightarrow> (int \<Rightarrow> int list \<Rightarrow> bool) \<Rightarrow> Version \<Rightarrow> nat \<Rightarrow>
       SudokuBoard \<Rightarrow> SudokuDFS \<Rightarrow> rec_outcome option"
  and rec_moves ::
      "(int list \<Rightarrow> int) \<Rightarrow> (int \<Rightarrow> int list \<Rightarrow> bool) \<Rightarrow> Version \<Rightarrow> nat \<Rightarrow>
       move list \<Rightarrow> SudokuBoard \<Rightarrow> SudokuDFS \<Rightarrow> rec_outcome option" where
  "solve_recursive md5 probe_hit version 0 state d = None"
| "solve_recursive md5 probe_hit version (Suc n) state d =
     (if lookup_visited probe_hit (hash_board md5 state) (visited_states d)
      then Some (Inr (NoResult, state, d))
      else
        (let d1 = d\<lparr>visited_states := visited_states d @ [hash_board md5 state],
                     node_expansions := node_expansions d + 1\<rparr>
         in case is_complete state of
              Inl e \<Rightarrow> Some (Inl e)
            | Inr True \<Rightarrow> Some (Inr (Found, state, d1))
            | Inr False \<Rightarrow>
                (case get_legal_moves state version of
                   (legal_moves, state') \<Rightarrow>
                     rec_moves md5 probe_hit version n legal_moves state'
                       (update_branching_factor (length legal_moves) d1))))"
| "rec_moves md5 probe_hit version n [] state d = Some (Inr (NoResult, state, d))"
| "rec_moves md5 probe_hit version n (move # moves) state d =
     (case apply_move state move of
        Inl e \<Rightarrow> Some (Inl e)
      | Inr s1 \<Rightarrow>
          (case solve_recursive md5 probe_hit version n s1 (d\<lparr>branches := branches d + 1\<rparr>) of
             None \<Rightarrow> None
           | Some (Inl e) \<Rightarrow> Some (Inl e)
           | Some (Inr (result, s2, d2)) \<Rightarrow>
               (case is_complete s2 of
                  Inl e \<Rightarrow> Some (Inl e)
                | Inr True \<Rightarrow> Some (Inr (Found, s2, d2))
                | Inr False \<Rightarrow>
                    (case undo_move s2 move of
                       Inl e \<Rightarrow> Some (Inl e)
                     | Inr s3 \<Rightarrow>
                         if result \<noteq> NoResult then Some (Inr (result, s3, d2))
                         else rec_moves md5 probe_hit version n moves s3 d2))))"

section \<open>Cells and units\<close>

text \<open>
  Notions for the proofs: the content of a cell, the cells of the board, the relation "in
  the same row, column or subgrid", the cells of the subgrid whose corner is \<open>(i, j)\<close>,
  and legality stated cell by cell: two different cells of one unit never hold the same
  nonzero value.
\<close>

definition cell_at :: "SudokuBoard \<Rightarrow> cell \<Rightarrow> int" where
  "cell_at b p = board b ! fst p ! snd p"

definition in_board :: "SudokuBoard \<Rightarrow> cell \<Rightarrow> bool" where
  "in_board b p \<longleftrightarrow> fst p < board_size b \<and> snd p < board_size b"

definition same_unit :: "SudokuBoard \<Rightarrow> cell \<Rightarrow> cell \<Rightarrow> bool" where
  "same_unit b p q \<longleftrightarrow>
     fst p = fst q \<or> snd p = snd q \<or>
     (fst p div size_sqrt b = fst q div size_sqrt b \<and> snd p div size_sqrt b = snd q div size_sqrt b)"

definition block_unit :: "SudokuBoard \<Rightarrow> nat \<Rightarrow> nat \<Rightarrow> cell list" where
  "block_unit b i j = List.product [i..<i + size_sqrt b] [j..<j + size_sqrt b]"

definition legal_pw :: "SudokuBoard \<Rightarrow> bool" where
  "legal_pw b \<longleftrightarrow>
     (\<forall>p q. in_board b p \<and> in_board b q \<and> same_unit b p q \<and>
            cell_at b p \<noteq> 0 \<and> cell_at b p = cell_at b q \<longrightarrow> p = q)"

section \<open>The cache against its rebuild\<close>

text \<open>
  \<open>cache_agrees m m'\<close> compares a maintained cache \<open>m\<close> with a rebuilt one \<open>m'\<close>, both read
  as maps: they are equal at every key except \<open>(0, 0)\<close>, where the maintained cache may
  hold the empty set that \<^verbatim>\<open>update_move_cache\<close> writes there. \<open>cache_ok\<close> says so of the cache
  a board carries, if it carries one. \<open>remove_in v G m\<close> is \<open>m\<close> with \<open>v\<close> removed from the
  sets of the keys in \<open>G\<close>.
\<close>

definition cache_agrees :: "(cell \<rightharpoonup> int set) \<Rightarrow> (cell \<rightharpoonup> int set) \<Rightarrow> bool" where
  "cache_agrees m m' \<longleftrightarrow>
     (\<forall>p. p \<noteq> (0, 0) \<longrightarrow> m p = m' p) \<and> (m (0, 0) = m' (0, 0) \<or> m (0, 0) = Some {})"

definition cache_ok :: "SudokuBoard \<Rightarrow> bool" where
  "cache_ok b \<longleftrightarrow>
     (case move_cache b of
        None \<Rightarrow> True
      | Some c \<Rightarrow> cache_agrees (map_of c) (map_of (get_move_cache b)))"






section \<open>The moves a board offers\<close>

text \<open>
  Notions for the move generators. \<open>candidates b\<close> is the set of moves that put a candidate
  of an empty cell into that cell, and \<open>dead_end b\<close> says that some empty cell has no
  candidate. \<open>legal_values b x y\<close> are the values the naive generator keeps for the cell
  \<open>(x, y)\<close>, \<open>cell_moves b p\<close> the moves of one cell, and \<open>moves_of d\<close> the moves held by
  the dict of the improved generator.
\<close>

definition candidates :: "SudokuBoard \<Rightarrow> move set" where
  "candidates b =
     {(x, y, v). x < board_size b \<and> y < board_size b \<and> board b ! x ! y = EMPTY_SPACE \<and>
                 v \<in> possible_values b x y}"

definition dead_end :: "SudokuBoard \<Rightarrow> bool" where
  "dead_end b \<longleftrightarrow>
     (\<exists>x<board_size b. \<exists>y<board_size b.
        board b ! x ! y = EMPTY_SPACE \<and> possible_values b x y = {})"

definition legal_values :: "SudokuBoard \<Rightarrow> nat \<Rightarrow> nat \<Rightarrow> int list" where
  "legal_values b x y =
     filter (\<lambda>i. is_legal_state (b\<lparr>board := set_cell (board b) x y i\<rparr>)) [1..int (board_size b)]"

definition cell_moves :: "SudokuBoard \<Rightarrow> cell \<Rightarrow> move set" where
  "cell_moves b p = (\<lambda>v. (fst p, snd p, v)) ` possible_values b (fst p) (snd p)"

definition moves_of :: "(cell \<times> move list) list \<Rightarrow> move set" where
  "moves_of d = (\<Union>a\<in>set d. set (snd a))"

section \<open>Example boards\<close>

definition mk_board :: "nat \<Rightarrow> grid \<Rightarrow> SudokuBoard" where
  "mk_board n g =
     \<lparr>board_size = n * n, size_sqrt = n, board = g, last_move = None, move_cache = None\<rparr>"

definition grid_a :: grid where
  "grid_a = [[1, 2, 3, 4], [3, 4, 1, 2], [2, 1, 4, 3], [4, 3, 2, 0]]"

definition grid_r :: grid where
  "grid_r = [[3, 4, 1, 2], [2, 0, 3, 4], [4, 0, 0, 3], [0, 3, 4, 0]]"

text \<open>A legal board whose cell \<open>(0, 3)\<close> has no candidate left.\<close>

definition board_dead :: SudokuBoard where
  "board_dead = mk_board 2 [[1, 2, 3, 0], [0, 0, 0, 4], [0, 0, 0, 0], [0, 0, 0, 0]]"

definition grid_full :: grid where
  "grid_full = [[1, 2, 3, 4], [3, 4, 1, 2], [2, 1, 4, 3], [4, 3, 2, 1]]"

text \<open>
  A stand-in for the digest in closed examples: the cell data read as a base-5 numeral,
  which tells any two 4x4 boards with values up to 4 apart and stays below \<open>10\<^sup>16\<close>.
\<close>

definition poly_digest :: "int list \<Rightarrow> int" where
  "poly_digest xs = foldl (\<lambda>a v. 5 * a + v) 0 xs"

text \<open>An illegal board: row 0 holds the value 1 twice.\<close>

definition grid_bad :: grid where
  "grid_bad = [[1, 1, 0, 0], [0, 0, 0, 0], [0, 0, 0, 0], [0, 0, 0, 0]]"

text \<open>A board with a freshly built cache, before and after the move \<open>(2, 3, 3)\<close>.\<close>

definition grid_s0 :: grid where
  "grid_s0 = [[0, 0, 0, 0], [0, 0, 0, 0], [0, 0, 1, 0], [2, 0, 0, 0]]"

definition board_s0 :: SudokuBoard where
  "board_s0 = (mk_board 2 grid_s0)\<lparr>move_cache := Some (get_move_cache (mk_board 2 grid_s0))\<rparr>"

definition cache_s1 :: cache where
  "cache_s1 =
     [((0, 0), {}), ((0, 1), {1, 2, 3, 4}), ((0, 2), {2, 3, 4}), ((0, 3), {1, 2, 4}),
      ((1, 0), {1, 3, 4}), ((1, 1), {1, 2, 3, 4}), ((1, 2), {2, 3, 4}), ((1, 3), {1, 2, 4}),
      ((2, 0), {4}), ((2, 1), {4}), ((3, 1), {1, 3, 4}), ((3, 2), {4}), ((3, 3), {4})]"

definition board_s1 :: SudokuBoard where
  "board_s1 =
     \<lparr>board_size = 4, size_sqrt = 2,
      board = [[0, 0, 0, 0], [0, 0, 0, 0], [0, 0, 1, 3], [2, 0, 0, 0]],
      last_move = Some (2, 3, 3), move_cache = Some cache_s1\<rparr>"

section \<open>Board operations\<close>

lemma set_cell_nth:
  "set_cell g x y v ! i ! j =
     (if i = x \<and> j = y \<and> x < length g \<and> y < length (g ! x) then v else g ! i ! j)"
  by (cases "i = x"; cases "x < length g"; cases "j = y"; cases "y < length (g ! x)")
     (simp_all add: set_cell_def list_update_beyond)

lemma set_cell_length [simp]: "length (set_cell g x y v) = length g"
  by (simp add: set_cell_def)

lemma set_cell_row_length [simp]: "length (set_cell g x y v ! i) = length (g ! i)"
  by (cases "i = x"; cases "x < length g") (simp_all add: set_cell_def list_update_beyond)

lemma set_cell_restore: "set_cell (set_cell g x y v) x y (g ! x ! y) = g"
  by (cases "x < length g") (simp_all add: set_cell_def list_update_beyond)

text \<open>
  C10. On a board without a candidate cache, \<open>apply_move (x, y, v)\<close> with a value \<open>v\<close>
  that the 64-bit array can hold sets cell \<open>(x, y)\<close> to \<open>v\<close> and leaves every other cell,
  the shape of the array and the sizes as they were; the board still has no cache.
  Nothing is asked of the old content of the cell: a non-empty cell is overwritten and
  no error is returned. A value outside the 64-bit range is the one thing the assignment
  refuses: it raises OverflowError.
\<close>

theorem apply_move_frame:
  assumes "move_cache b = None" and "x < length (board b)" and "y < length (board b ! x)"
  shows "(fits_int64 v \<longrightarrow>
           (\<exists>b'. apply_move b (x, y, v) = Inr b' \<and>
                 board b' ! x ! y = v \<and>
                 (\<forall>i j. (i, j) \<noteq> (x, y) \<longrightarrow> board b' ! i ! j = board b ! i ! j) \<and>
                 length (board b') = length (board b) \<and>
                 (\<forall>i. length (board b' ! i) = length (board b ! i)) \<and>
                 board_size b' = board_size b \<and> size_sqrt b' = size_sqrt b \<and>
                 last_move b' = Some (x, y, v) \<and> move_cache b' = None)) \<and>
         (\<not> fits_int64 v \<longrightarrow> apply_move b (x, y, v) = Inl OverflowError)"
  using assms by (simp add: apply_move_def set_cell_nth)

theorem apply_move_frame_witness:
  "\<exists>b'. apply_move (mk_board 2 grid_a) (0, 1, 9) = Inr b' \<and>
        board (mk_board 2 grid_a) ! 0 ! 1 = 2 \<and>
        board b' ! 0 ! 1 = 9 \<and>
        (\<forall>i j. (i, j) \<noteq> (0, 1) \<longrightarrow> board b' ! i ! j = board (mk_board 2 grid_a) ! i ! j)"
  using apply_move_frame [of "mk_board 2 grid_a" 0 1 9]
  by (auto simp: mk_board_def grid_a_def fits_int64_def)

subsection \<open>The row accessor\<close>

lemma map_through_nth: "map (\<lambda>x. f (g ! x)) [0..<length g] = map f g"
  by (rule nth_equalityI) simp_all

lemma get_row_raises_iff:
  "get_row b r = Inl InvalidIndex \<longleftrightarrow>
     (\<forall>i. r = PyInt i \<longrightarrow> i < 0 \<or> int (board_size b) \<le> i)"
  by (cases r) (auto simp: get_row_def)

lemma get_row_column:
  "i < board_size b \<Longrightarrow> length (board b) = board_size b \<Longrightarrow>
   get_row b (PyInt (int i)) = Inr (board_T b ! i)"
  using map_through_nth [of "\<lambda>row. row ! i" "board b"]
  by (simp add: get_row_def board_T_def)

text \<open>
  C7. \<open>get_row\<close> rejects exactly the arguments that are no integer in \<open>[0, size)\<close>
  (\<open>get_row_raises_iff\<close>), but what it returns for a valid \<open>i\<close> is
  \<^verbatim>\<open>[self._board[x][i] for x in range(self.size)]\<close>, the \<open>i\<close>-th column of the array
  (\<open>get_row_column\<close>). On the board below, row 1 is \<open>[3, 4, 1, 2]\<close> and \<open>get_row 1\<close>
  returns \<open>[2, 4, 1, 3]\<close>.
\<close>

theorem get_row_returns_column:
  "get_row (mk_board 2 grid_a) (PyInt 1) = Inr [2, 4, 1, 3] \<and>
   board (mk_board 2 grid_a) ! 1 = [3, 4, 1, 2] \<and>
   board_T (mk_board 2 grid_a) ! 1 = [2, 4, 1, 3]"
  by (simp add: get_row_def board_T_def mk_board_def grid_a_def upt_rec)

subsection \<open>Completion\<close>

lemma wf_cell_mem:
  assumes "wf_board b"
  shows "v \<in> set (concat (board b)) \<longleftrightarrow>
         (\<exists>x<board_size b. \<exists>y<board_size b. board b ! x ! y = v)"
proof
  assume "v \<in> set (concat (board b))"
  then obtain row where r: "row \<in> set (board b)" "v \<in> set row" by auto
  then obtain x where x: "x < length (board b)" "board b ! x = row"
    by (auto simp: in_set_conv_nth)
  from r obtain y where y: "y < length row" "row ! y = v"
    by (auto simp: in_set_conv_nth)
  from assms r have "length row = board_size b"
    by (simp add: wf_board_def list_all_iff)
  with x y assms show "\<exists>x<board_size b. \<exists>y<board_size b. board b ! x ! y = v"
    by (auto simp: wf_board_def)
next
  assume "\<exists>x<board_size b. \<exists>y<board_size b. board b ! x ! y = v"
  then obtain x y where xy: "x < board_size b" "y < board_size b" "board b ! x ! y = v"
    by blast
  from assms xy have "board b ! x \<in> set (board b)" by (simp add: wf_board_def)
  moreover from this assms have "length (board b ! x) = board_size b"
    by (simp add: wf_board_def list_all_iff)
  ultimately show "v \<in> set (concat (board b))"
    using xy by (auto intro!: bexI [of _ "board b ! x"])
qed

lemma is_complete_False_iff:
  assumes wf: "wf_board b"
  shows "is_complete b = Inr False \<longleftrightarrow> EMPTY_SPACE \<in> set (concat (board b))"
proof -
  have "list_ex (\<lambda>x. list_ex (\<lambda>y. board b ! x ! y = EMPTY_SPACE) [0..<board_size b])
          [0..<board_size b] \<longleftrightarrow>
        (\<exists>x<board_size b. \<exists>y<board_size b. board b ! x ! y = EMPTY_SPACE)"
    by (simp add: list_ex_iff Bex_def)
  then show ?thesis
    unfolding is_complete_def wf_cell_mem [OF wf] by simp
qed

text \<open>
  C8. \<open>is_complete\<close> returns \<open>False\<close> exactly when some cell holds \<open>EMPTY_SPACE\<close>. On a
  board without empty cells it returns \<open>True\<close> when the board is legal and raises the fatal
  error when it is not, so \<open>True\<close> is never returned for an illegal board.
\<close>

theorem is_complete_spec:
  assumes "wf_board b"
  shows "(is_complete b = Inr False \<longleftrightarrow> EMPTY_SPACE \<in> set (concat (board b))) \<and>
         (EMPTY_SPACE \<notin> set (concat (board b)) \<longrightarrow>
            (is_legal_state b \<longrightarrow> is_complete b = Inr True) \<and>
            (\<not> is_legal_state b \<longrightarrow> is_complete b = Inl InconsistentCompleteState)) \<and>
         (is_complete b = Inr True \<longrightarrow> is_legal_state b)"
  using assms is_complete_False_iff [OF assms]
  by (auto simp: is_complete_def split: if_splits)

theorem is_complete_spec_witness:
  "wf_board (mk_board 2 grid_full) \<and>
   EMPTY_SPACE \<notin> set (concat (board (mk_board 2 grid_full))) \<and>
   is_legal_state (mk_board 2 grid_full) \<and>
   is_complete (mk_board 2 grid_full) = Inr True"
proof -
  have wf: "wf_board (mk_board 2 grid_full)"
    by (simp add: wf_board_def mk_board_def grid_full_def)
  have ne: "EMPTY_SPACE \<notin> set (concat (board (mk_board 2 grid_full)))"
    by (simp add: mk_board_def grid_full_def EMPTY_SPACE_def)
  have lg: "is_legal_state (mk_board 2 grid_full)"
    by code_simp
  show ?thesis
    using is_complete_spec [OF wf] wf ne lg by simp
qed

section \<open>The search drivers\<close>

subsection \<open>Exhausted frontier\<close>

lemma board_dead_not_complete: "is_complete board_dead = Inr False"
  by code_simp

lemma board_dead_legal: "is_legal_state board_dead"
  by code_simp

lemma board_dead_moves: "get_legal_moves board_dead IMPROVED = ([], board_dead)"
  by code_simp

lemma solve_step_empty: "solve_step md5 version ([], d) = Done (Inl QueueEmpty, d)"
  by (simp add: solve_step_def)

text \<open>
  C4. On the legal, unsolvable board \<open>board_dead\<close> the first pass of the iterative driver
  expands the initial state and pushes nothing; the second pass calls
  \<^verbatim>\<open>queue.get(False)\<close> on the empty queue, and the driver ends with the uncaught
  \<^verbatim>\<open>queue.Empty\<close> exception, for any digest. The recursive driver returns \<^verbatim>\<open>None\<close> on
  the same board.
\<close>

theorem solve_exhausted_raises:
  "map_option fst (solve md5 IMPROVED (Suc (Suc 0)) board_dead) = Some (Inl QueueEmpty) \<and>
   (\<exists>d. solve_recursive md5 probe_hit IMPROVED (Suc 0) board_dead reset_stats =
          Some (Inr (NoResult, board_dead, d)))"
  by (simp add: solve_def solve_init_def solve_step_def reset_stats_def lookup_visited_def
        board_dead_not_complete board_dead_moves)

subsection \<open>Revisited states\<close>

lemma solve_step_revisited:
  "hash_board md5 state \<in> set (visited_states d) \<Longrightarrow>
   solve_step md5 version (state # rest, d) = Continue (rest, d)"
  by (simp add: solve_step_def)

lemma push_moves_revistited:
  "push_moves state moves (queue, d) = Continue (queue', d') \<Longrightarrow>
   revistited_states d' = revistited_states d"
  by (induction moves arbitrary: queue d) (auto split: sum.splits)

lemma solve_step_revistited:
  assumes "solve_step md5 version (queue, d) = Continue (queue', d')"
  shows "revistited_states d' = revistited_states d"
  using assms
  by (auto simp: solve_step_def Let_def
           split: list.splits if_splits sum.splits bool.splits prod.splits
           dest!: push_moves_revistited)

text \<open>
  C6. A popped state that is already expanded is skipped with the statistics untouched
  (\<open>solve_step_revisited\<close>), and no pass of the loop changes \<^verbatim>\<open>revistited_states\<close>
  (\<open>solve_step_revistited\<close>). On the board \<open>grid_r\<close> the state popped in the 14th pass
  has its fingerprint in \<^verbatim>\<open>visited_states\<close>; the pass drops it and the counter is still
  0, as it is when the search ends after 14 expansions.
\<close>

theorem solve_revisit_not_counted:
  "(case solve_steps poly_digest IMPROVED 13 (solve_init (mk_board 2 grid_r)) of
      Some (state # rest, d) \<Rightarrow>
        hash_board poly_digest state \<in> set (visited_states d) \<and>
        revistited_states d = 0 \<and>
        (case solve_step poly_digest IMPROVED (state # rest, d) of
           Continue (rest', d') \<Rightarrow> rest' = rest \<and> revistited_states d' = 0
         | Done r \<Rightarrow> False)
    | _ \<Rightarrow> False) \<and>
   map_option (\<lambda>(r, d). (r, node_expansions d, revistited_states d))
     (solve poly_digest IMPROVED 16 (mk_board 2 grid_r)) = Some (Inl QueueEmpty, 14, 0)"
  by code_simp

section \<open>Rows, columns and subgrids cell by cell\<close>

lemma range_step_sq: "0 < n \<Longrightarrow> range_step (n * n) n = map (\<lambda>k. k * n) [0..<n]"
proof -
  assume "0 < n"
  then obtain m where m: "n = Suc m" by (cases n) auto
  have "n * n + n - 1 = m + n * n" by (simp add: m)
  moreover have "(m + n * n) div n = n + m div n" by (rule div_mult_self2) (simp add: m)
  moreover have "m div n = 0" by (simp add: m)
  ultimately have "(n * n + n - 1) div n = n" by simp
  then show ?thesis by (simp add: range_step_def)
qed

lemma unique_nonzero_iff: "unique_nonzero xs \<longleftrightarrow> distinct (filter (\<lambda>v. v \<noteq> 0) xs)"
  by (simp add: unique_nonzero_def np_unique_def length_remdups_eq remdups_id_iff_distinct)

lemma unique_nonzero_map:
  "distinct cs \<Longrightarrow> unique_nonzero (map f cs) \<longleftrightarrow> inj_on f {p \<in> set cs. f p \<noteq> 0}"
  by (simp add: unique_nonzero_iff filter_map distinct_map o_def)

lemma take_drop_nth:
  assumes "i + n \<le> length xs"
  shows "take n (drop i xs) = map ((!) xs) [i..<i + n]"
proof (rule nth_equalityI)
  show "length (take n (drop i xs)) = length (map ((!) xs) [i..<i + n])"
    using assms by simp
next
  fix k assume "k < length (take n (drop i xs))"
  then have "k < n" by simp
  then show "take n (drop i xs) ! k = map ((!) xs) [i..<i + n] ! k"
    using assms by simp
qed

lemma map_product: "map f (List.product xs ys) = concat (map (\<lambda>x. map (\<lambda>y. f (x, y)) ys) xs)"
  by (induction xs) (simp_all add: o_def)

lemma wf_row_length: "wf_board b \<Longrightarrow> x < board_size b \<Longrightarrow> length (board b ! x) = board_size b"
  by (simp add: wf_board_def list_all_length)

lemma row_cells:
  "wf_board b \<Longrightarrow> x < board_size b \<Longrightarrow>
   board b ! x = map (\<lambda>c. cell_at b (x, c)) [0..<board_size b]"
  using map_nth [of "board b ! x"] by (simp add: wf_row_length cell_at_def)

lemma col_cells:
  "wf_board b \<Longrightarrow> y < board_size b \<Longrightarrow>
   board_T b ! y = map (\<lambda>r. cell_at b (r, y)) [0..<board_size b]"
  using map_through_nth [of "\<lambda>row. row ! y" "board b"]
  by (simp add: board_T_def cell_at_def wf_board_def)

lemma subgrid_cells:
  assumes wf: "wf_board b" and i: "i + size_sqrt b \<le> board_size b"
      and j: "j + size_sqrt b \<le> board_size b"
  shows "subgrid_at b i j = map (cell_at b) (block_unit b i j)"
proof -
  have len: "length (board b) = board_size b" using wf by (simp add: wf_board_def)
  have rows: "take (size_sqrt b) (drop i (board b)) = map ((!) (board b)) [i..<i + size_sqrt b]"
    using i len by (simp add: take_drop_nth)
  have "\<And>r. r \<in> set [i..<i + size_sqrt b] \<Longrightarrow>
      take (size_sqrt b) (drop j (board b ! r)) = map (\<lambda>c. cell_at b (r, c)) [j..<j + size_sqrt b]"
  proof -
    fix r assume "r \<in> set [i..<i + size_sqrt b]"
    then have "r < board_size b" using i by auto
    then have "length (board b ! r) = board_size b" using wf by (rule wf_row_length [rotated])
    then show "take (size_sqrt b) (drop j (board b ! r)) =
               map (\<lambda>c. cell_at b (r, c)) [j..<j + size_sqrt b]"
      using j by (simp add: take_drop_nth cell_at_def)
  qed
  then have eq: "map (\<lambda>r. take (size_sqrt b) (drop j (board b ! r))) [i..<i + size_sqrt b] =
             map (\<lambda>r. map (\<lambda>c. cell_at b (r, c)) [j..<j + size_sqrt b]) [i..<i + size_sqrt b]"
    by (intro map_cong refl)
  have "subgrid_at b i j =
        concat (map (\<lambda>r. take (size_sqrt b) (drop j (board b ! r))) [i..<i + size_sqrt b])"
    by (simp add: subgrid_at_def rows o_def)
  also have "\<dots> = concat (map (\<lambda>r. map (\<lambda>c. cell_at b (r, c)) [j..<j + size_sqrt b])
                          [i..<i + size_sqrt b])"
    by (simp only: eq)
  also have "\<dots> = map (cell_at b) (block_unit b i j)"
    by (simp add: block_unit_def map_product)
  finally show ?thesis .
qed

lemma div_eq_iff_range:
  assumes "0 < (n::nat)"
  shows "r div n = a \<longleftrightarrow> a * n \<le> r \<and> r < a * n + n"
proof
  assume "r div n = a"
  then show "a * n \<le> r \<and> r < a * n + n"
    using assms dividend_less_div_times [of n r] div_times_less_eq_dividend [of r n]
    by (auto simp: add.commute)
next
  assume "a * n \<le> r \<and> r < a * n + n"
  then show "r div n = a"
    by (intro div_nat_eqI) (simp_all add: mult.commute add.commute)
qed

lemma block_unit_mem:
  "0 < size_sqrt b \<Longrightarrow>
   p \<in> set (block_unit b (a * size_sqrt b) (c * size_sqrt b)) \<longleftrightarrow>
   fst p div size_sqrt b = a \<and> snd p div size_sqrt b = c"
  by (cases p) (auto simp: block_unit_def div_eq_iff_range)

lemma block_unit_distinct: "distinct (block_unit b i j)"
  by (simp add: block_unit_def distinct_product)

lemma block_in_range: "a < n \<Longrightarrow> a * n + n \<le> n * (n::nat)"
proof -
  assume "a < n"
  then have "Suc a * n \<le> n * n" by (intro mult_le_mono1) simp
  then show ?thesis by (simp add: add.commute)
qed

lemma legal_rows:
  assumes wf: "wf_board b"
  shows "list_all unique_nonzero (board b) \<longleftrightarrow>
         (\<forall>x<board_size b. inj_on (\<lambda>c. cell_at b (x, c))
                              {c. c < board_size b \<and> cell_at b (x, c) \<noteq> 0})"
proof -
  have len: "length (board b) = board_size b" using wf by (simp add: wf_board_def)
  have "\<And>x. x < board_size b \<Longrightarrow>
          unique_nonzero (board b ! x) \<longleftrightarrow>
          inj_on (\<lambda>c. cell_at b (x, c)) {c. c < board_size b \<and> cell_at b (x, c) \<noteq> 0}"
    using unique_nonzero_map [of "[0..<board_size b]"] by (simp add: row_cells [OF wf])
  then show ?thesis by (simp add: list_all_length len)
qed

lemma legal_cols:
  assumes wf: "wf_board b"
  shows "list_all unique_nonzero (board_T b) \<longleftrightarrow>
         (\<forall>y<board_size b. inj_on (\<lambda>r. cell_at b (r, y))
                              {r. r < board_size b \<and> cell_at b (r, y) \<noteq> 0})"
proof -
  have len: "length (board_T b) = board_size b" by (simp add: board_T_def)
  have "\<And>y. y < board_size b \<Longrightarrow>
          unique_nonzero (board_T b ! y) \<longleftrightarrow>
          inj_on (\<lambda>r. cell_at b (r, y)) {r. r < board_size b \<and> cell_at b (r, y) \<noteq> 0}"
    using unique_nonzero_map [of "[0..<board_size b]"] by (simp add: col_cells [OF wf])
  then show ?thesis by (simp add: list_all_length len)
qed

lemma legal_blocks:
  assumes wf: "wf_board b"
  shows "list_all (\<lambda>i. list_all (\<lambda>j. unique_nonzero (subgrid_at b i j))
                          (range_step (board_size b) (size_sqrt b)))
                  (range_step (board_size b) (size_sqrt b)) \<longleftrightarrow>
         (\<forall>a<size_sqrt b. \<forall>c<size_sqrt b.
            inj_on (cell_at b)
              {p \<in> set (block_unit b (a * size_sqrt b) (c * size_sqrt b)). cell_at b p \<noteq> 0})"
proof -
  have n: "0 < size_sqrt b" and sz: "board_size b = size_sqrt b * size_sqrt b"
    using wf by (simp_all add: wf_board_def)
  have "\<And>a c. a < size_sqrt b \<Longrightarrow> c < size_sqrt b \<Longrightarrow>
          unique_nonzero (subgrid_at b (a * size_sqrt b) (c * size_sqrt b)) \<longleftrightarrow>
          inj_on (cell_at b)
            {p \<in> set (block_unit b (a * size_sqrt b) (c * size_sqrt b)). cell_at b p \<noteq> 0}"
    using block_in_range [of _ "size_sqrt b"]
    by (simp add: subgrid_cells [OF wf] sz unique_nonzero_map block_unit_distinct)
  then show ?thesis
    by (simp add: sz range_step_sq [OF n] list_all_length)
qed

lemma wf_div_less:
  "wf_board b \<Longrightarrow> x < board_size b \<Longrightarrow> x div size_sqrt b < size_sqrt b"
  by (simp add: wf_board_def div_less_iff_less_mult)

lemma legal_pwD:
  "legal_pw b \<Longrightarrow> in_board b p \<Longrightarrow> in_board b q \<Longrightarrow> same_unit b p q \<Longrightarrow>
   cell_at b p \<noteq> 0 \<Longrightarrow> cell_at b p = cell_at b q \<Longrightarrow> p = q"
  unfolding legal_pw_def by blast

lemma is_legal_imp_pw:
  assumes wf: "wf_board b" and legal: "is_legal_state b"
  shows "legal_pw b"
proof -
  have n: "0 < size_sqrt b" using wf by (simp add: wf_board_def)
  from legal have rows: "\<And>x. x < board_size b \<Longrightarrow>
      inj_on (\<lambda>c. cell_at b (x, c)) {c. c < board_size b \<and> cell_at b (x, c) \<noteq> 0}"
    by (simp add: is_legal_state_def legal_rows [OF wf])
  from legal have cols: "\<And>y. y < board_size b \<Longrightarrow>
      inj_on (\<lambda>r. cell_at b (r, y)) {r. r < board_size b \<and> cell_at b (r, y) \<noteq> 0}"
    by (simp add: is_legal_state_def legal_cols [OF wf])
  from legal have blocks: "\<And>a c. a < size_sqrt b \<Longrightarrow> c < size_sqrt b \<Longrightarrow>
      inj_on (cell_at b)
        {p \<in> set (block_unit b (a * size_sqrt b) (c * size_sqrt b)). cell_at b p \<noteq> 0}"
    by (simp add: is_legal_state_def legal_blocks [OF wf])
  show "legal_pw b"
    unfolding legal_pw_def
  proof (intro allI impI)
    fix p q :: cell
    assume a: "in_board b p \<and> in_board b q \<and> same_unit b p q \<and>
               cell_at b p \<noteq> 0 \<and> cell_at b p = cell_at b q"
    obtain r c where p: "p = (r, c)" by (cases p)
    obtain r' c' where q: "q = (r', c')" by (cases q)
    from a p q have rng: "r < board_size b" "c < board_size b" "r' < board_size b" "c' < board_size b"
      by (simp_all add: in_board_def)
    from a p q have nz: "cell_at b (r, c) \<noteq> 0" and eq: "cell_at b (r, c) = cell_at b (r', c')"
      by simp_all
    from nz eq have nz': "cell_at b (r', c') \<noteq> 0" by simp
    from a p q consider (row) "r = r'" | (col) "c = c'"
      | (block) "r div size_sqrt b = r' div size_sqrt b" "c div size_sqrt b = c' div size_sqrt b"
      unfolding same_unit_def by auto
    then show "p = q"
    proof cases
      case row
      have "c = c'"
        by (rule inj_onD [OF rows [OF rng(1)]]) (use rng nz nz' eq row in simp_all)
      with row p q show ?thesis by simp
    next
      case col
      have "r = r'"
        by (rule inj_onD [OF cols [OF rng(2)]]) (use rng nz nz' eq col in simp_all)
      with col p q show ?thesis by simp
    next
      case block
      have lt: "r div size_sqrt b < size_sqrt b" "c div size_sqrt b < size_sqrt b"
        using wf rng by (simp_all add: wf_div_less)
      have "(r, c) = (r', c')"
        by (rule inj_onD [OF blocks [OF lt]])
           (use nz nz' eq block in \<open>simp_all add: block_unit_mem [OF n]\<close>)
      with p q show ?thesis by simp
    qed
  qed
qed

lemma pw_imp_is_legal:
  assumes wf: "wf_board b" and pw: "legal_pw b"
  shows "is_legal_state b"
proof -
  have n: "0 < size_sqrt b" and sz: "board_size b = size_sqrt b * size_sqrt b"
    using wf by (simp_all add: wf_board_def)
  have rows: "\<forall>x<board_size b. inj_on (\<lambda>c. cell_at b (x, c))
                              {c. c < board_size b \<and> cell_at b (x, c) \<noteq> 0}"
  proof (intro allI impI inj_onI)
    fix x c c' assume x: "x < board_size b"
      and c: "c \<in> {c. c < board_size b \<and> cell_at b (x, c) \<noteq> 0}"
      and c': "c' \<in> {c. c < board_size b \<and> cell_at b (x, c) \<noteq> 0}"
      and eq: "cell_at b (x, c) = cell_at b (x, c')"
    have "(x, c) = (x, c')"
      by (rule legal_pwD [OF pw]) (use x c c' eq in \<open>simp_all add: in_board_def same_unit_def\<close>)
    then show "c = c'" by simp
  qed
  have cols: "\<forall>y<board_size b. inj_on (\<lambda>r. cell_at b (r, y))
                              {r. r < board_size b \<and> cell_at b (r, y) \<noteq> 0}"
  proof (intro allI impI inj_onI)
    fix y r r' assume y: "y < board_size b"
      and r: "r \<in> {r. r < board_size b \<and> cell_at b (r, y) \<noteq> 0}"
      and r': "r' \<in> {r. r < board_size b \<and> cell_at b (r, y) \<noteq> 0}"
      and eq: "cell_at b (r, y) = cell_at b (r', y)"
    have "(r, y) = (r', y)"
      by (rule legal_pwD [OF pw]) (use y r r' eq in \<open>simp_all add: in_board_def same_unit_def\<close>)
    then show "r = r'" by simp
  qed
  have blocks: "\<forall>a<size_sqrt b. \<forall>c<size_sqrt b.
            inj_on (cell_at b)
              {p \<in> set (block_unit b (a * size_sqrt b) (c * size_sqrt b)). cell_at b p \<noteq> 0}"
  proof (intro allI impI inj_onI)
    fix a c p q
    assume ac: "a < size_sqrt b" "c < size_sqrt b"
      and p: "p \<in> {p \<in> set (block_unit b (a * size_sqrt b) (c * size_sqrt b)). cell_at b p \<noteq> 0}"
      and q: "q \<in> {p \<in> set (block_unit b (a * size_sqrt b) (c * size_sqrt b)). cell_at b p \<noteq> 0}"
      and eq: "cell_at b p = cell_at b q"
    from p q have d: "fst p div size_sqrt b = a" "snd p div size_sqrt b = c"
      "fst q div size_sqrt b = a" "snd q div size_sqrt b = c"
      by (simp_all add: block_unit_mem [OF n])
    have "fst p < board_size b" "snd p < board_size b" "fst q < board_size b" "snd q < board_size b"
      using d ac n by (simp_all add: sz div_less_iff_less_mult [symmetric])
    then have ib: "in_board b p" "in_board b q" by (simp_all add: in_board_def)
    have su: "same_unit b p q" using d by (simp add: same_unit_def)
    from p have nz: "cell_at b p \<noteq> 0" by simp
    show "p = q" by (rule legal_pwD [OF pw ib su nz eq])
  qed
  show "is_legal_state b"
    using rows cols blocks
    by (simp add: is_legal_state_def legal_rows [OF wf] legal_cols [OF wf] legal_blocks [OF wf])
qed

lemma is_legal_iff: "wf_board b \<Longrightarrow> is_legal_state b \<longleftrightarrow> legal_pw b"
  using is_legal_imp_pw pw_imp_is_legal by blast


subsection \<open>Candidate sets\<close>

lemma allowed_values_iff: "v \<in> allowed_values b \<longleftrightarrow> 1 \<le> v \<and> v \<le> int (board_size b)"
  by (simp add: allowed_values_def)

lemma finite_allowed_values: "finite (allowed_values b)"
  by (simp add: allowed_values_def)

lemma set_np_unique: "set (np_unique xs) = set xs"
  by (simp add: np_unique_def)

lemma row_vals:
  "wf_board b \<Longrightarrow> x < board_size b \<Longrightarrow>
   set (board b ! x) = (\<lambda>c. cell_at b (x, c)) ` {0..<board_size b}"
  by (subst row_cells) simp_all

lemma col_vals:
  "wf_board b \<Longrightarrow> y < board_size b \<Longrightarrow>
   set (board_T b ! y) = (\<lambda>r. cell_at b (r, y)) ` {0..<board_size b}"
  by (subst col_cells) simp_all

lemma length_board_T: "length (board_T b) = board_size b"
  by (simp add: board_T_def)

lemma block_unit_set:
  "0 < size_sqrt b \<Longrightarrow>
   set (block_unit b (a * size_sqrt b) (c * size_sqrt b)) =
   {q. fst q div size_sqrt b = a \<and> snd q div size_sqrt b = c}"
  by (rule set_eqI) (simp add: block_unit_mem)

lemma subgrid_index_less:
  assumes wf: "wf_board b" and x: "x < board_size b" and y: "y < board_size b"
  shows "get_subgrid_index b x y < size_sqrt b * size_sqrt b"
proof -
  let ?n = "size_sqrt b"
  have a: "x div ?n < ?n" and c: "y div ?n < ?n" using wf x y by (simp_all add: wf_div_less)
  have "x div ?n * ?n + y div ?n < x div ?n * ?n + ?n" using c by simp
  also have "\<dots> \<le> ?n * ?n" using a by (rule block_in_range)
  finally show ?thesis by (simp add: get_subgrid_index_def)
qed

lemma length_sub_grids: "wf_board b \<Longrightarrow> length (sub_grids b) = size_sqrt b * size_sqrt b"
  by (simp add: sub_grids_def wf_board_def range_step_sq)

lemma sub_grids_nth:
  assumes wf: "wf_board b" and x: "x < board_size b" and y: "y < board_size b"
  shows "sub_grids b ! get_subgrid_index b x y =
         np_unique (subgrid_at b (x div size_sqrt b * size_sqrt b) (y div size_sqrt b * size_sqrt b))"
proof -
  let ?n = "size_sqrt b"
  have n: "0 < ?n" and sz: "board_size b = ?n * ?n" using wf by (simp_all add: wf_board_def)
  have a: "x div ?n < ?n" and c: "y div ?n < ?n" using wf x y by (simp_all add: wf_div_less)
  let ?rs = "map (\<lambda>k. k * ?n) [0..<?n]"
  let ?k = "get_subgrid_index b x y"
  have k: "?k < ?n * ?n" using wf x y by (rule subgrid_index_less)
  have d: "?k div ?n = x div ?n" "?k mod ?n = y div ?n"
    using c n by (simp_all add: get_subgrid_index_def)
  have rs: "range_step (board_size b) ?n = ?rs" by (simp add: sz range_step_sq [OF n])
  have "List.product ?rs ?rs ! ?k = (?rs ! (?k div length ?rs), ?rs ! (?k mod length ?rs))"
    using k by (intro product_nth) simp
  then have pr: "List.product ?rs ?rs ! ?k = (x div ?n * ?n, y div ?n * ?n)"
    using a c by (simp add: d)
  have "sub_grids b ! ?k = (\<lambda>(i, j). np_unique (subgrid_at b i j)) (List.product ?rs ?rs ! ?k)"
    unfolding sub_grids_def rs using k by (intro nth_map) simp
  then show ?thesis by (simp only: pr prod.case)
qed

lemma block_vals:
  assumes wf: "wf_board b" and x: "x < board_size b" and y: "y < board_size b"
  shows "set (sub_grids b ! get_subgrid_index b x y) =
         cell_at b ` {q. fst q div size_sqrt b = x div size_sqrt b \<and>
                         snd q div size_sqrt b = y div size_sqrt b}"
proof -
  let ?n = "size_sqrt b"
  have n: "0 < ?n" and sz: "board_size b = ?n * ?n" using wf by (simp_all add: wf_board_def)
  have a: "x div ?n < ?n" and c: "y div ?n < ?n" using wf x y by (simp_all add: wf_div_less)
  have "subgrid_at b (x div ?n * ?n) (y div ?n * ?n) =
        map (cell_at b) (block_unit b (x div ?n * ?n) (y div ?n * ?n))"
    using block_in_range [OF a] block_in_range [OF c] by (intro subgrid_cells [OF wf]) (simp_all add: sz)
  then show ?thesis
    by (simp add: sub_grids_nth [OF wf x y] set_np_unique block_unit_set [OF n])
qed


lemma block_cell_in_board:
  assumes wf: "wf_board b" and x: "x < board_size b" and y: "y < board_size b"
      and q: "fst q div size_sqrt b = x div size_sqrt b" "snd q div size_sqrt b = y div size_sqrt b"
  shows "in_board b q"
proof -
  let ?n = "size_sqrt b"
  have n: "0 < ?n" and sz: "board_size b = ?n * ?n" using wf by (simp_all add: wf_board_def)
  have "x div ?n < ?n" "y div ?n < ?n" using wf x y by (simp_all add: wf_div_less)
  with q have "fst q div ?n < ?n" "snd q div ?n < ?n" by simp_all
  then show "in_board b q" using n by (simp add: in_board_def sz div_less_iff_less_mult)
qed

lemma possible_values_unfold:
  assumes wf: "wf_board b" and x: "x < board_size b" and y: "y < board_size b"
  shows "possible_values b x y =
         allowed_values b
           - (\<lambda>c. cell_at b (x, c)) ` {0..<board_size b}
           - (\<lambda>r. cell_at b (r, y)) ` {0..<board_size b}
           - cell_at b ` {q. fst q div size_sqrt b = x div size_sqrt b \<and>
                             snd q div size_sqrt b = y div size_sqrt b}"
proof -
  have len: "length (board b) = board_size b" using wf by (simp add: wf_board_def)
  have rm: "rows_missing b ! x = allowed_values b - (\<lambda>c. cell_at b (x, c)) ` {0..<board_size b}"
    using x len by (simp add: rows_missing_def row_vals [OF wf x])
  have cm: "cols_missing b ! y = allowed_values b - (\<lambda>r. cell_at b (r, y)) ` {0..<board_size b}"
    using y by (simp add: cols_missing_def col_vals [OF wf y] length_board_T)
  have "get_subgrid_index b x y < length (sub_grids b)"
    using subgrid_index_less [OF wf x y] by (simp add: length_sub_grids [OF wf])
  then have sm: "subgrids_missing b ! get_subgrid_index b x y =
            allowed_values b - cell_at b ` {q. fst q div size_sqrt b = x div size_sqrt b \<and>
                                               snd q div size_sqrt b = y div size_sqrt b}"
    by (simp add: subgrids_missing_def block_vals [OF wf x y])
  show ?thesis
    unfolding possible_values_def rm cm sm by blast
qed

lemma possible_values_iff:
  assumes wf: "wf_board b" and x: "x < board_size b" and y: "y < board_size b"
  shows "v \<in> possible_values b x y \<longleftrightarrow>
         v \<in> allowed_values b \<and>
         (\<forall>q. in_board b q \<and> same_unit b (x, y) q \<longrightarrow> cell_at b q \<noteq> v)"
proof
  let ?n = "size_sqrt b"
  assume v: "v \<in> possible_values b x y"
  then have al: "v \<in> allowed_values b"
    and nr: "v \<notin> (\<lambda>c. cell_at b (x, c)) ` {0..<board_size b}"
    and nc: "v \<notin> (\<lambda>r. cell_at b (r, y)) ` {0..<board_size b}"
    and nb: "v \<notin> cell_at b ` {q. fst q div ?n = x div ?n \<and> snd q div ?n = y div ?n}"
    by (simp_all add: possible_values_unfold [OF wf x y])
  have "\<forall>q. in_board b q \<and> same_unit b (x, y) q \<longrightarrow> cell_at b q \<noteq> v"
  proof (intro allI impI)
    fix q assume q: "in_board b q \<and> same_unit b (x, y) q"
    obtain r c where qrc: "q = (r, c)" by (cases q)
    from q qrc have rng: "r < board_size b" "c < board_size b" by (simp_all add: in_board_def)
    from q qrc have "x = r \<or> y = c \<or> (x div ?n = r div ?n \<and> y div ?n = c div ?n)"
      by (simp add: same_unit_def)
    then show "cell_at b q \<noteq> v"
    proof (elim disjE conjE)
      assume 1: "x = r"
      have "cell_at b (x, c) \<in> (\<lambda>c. cell_at b (x, c)) ` {0..<board_size b}"
        using rng by (intro imageI) simp
      with nr have "cell_at b (x, c) \<noteq> v" by (rule_tac notI) simp
      with 1 qrc show ?thesis by simp
    next
      assume 2: "y = c"
      have "cell_at b (r, y) \<in> (\<lambda>r. cell_at b (r, y)) ` {0..<board_size b}"
        using rng by (intro imageI) simp
      with nc have "cell_at b (r, y) \<noteq> v" by (rule_tac notI) simp
      with 2 qrc show ?thesis by simp
    next
      assume 3: "x div ?n = r div ?n" "y div ?n = c div ?n"
      have "cell_at b (r, c) \<in> cell_at b ` {q. fst q div ?n = x div ?n \<and> snd q div ?n = y div ?n}"
        using 3 by (intro imageI) simp
      with nb have "cell_at b (r, c) \<noteq> v" by (rule_tac notI) simp
      with qrc show ?thesis by simp
    qed
  qed
  with al show "v \<in> allowed_values b \<and>
       (\<forall>q. in_board b q \<and> same_unit b (x, y) q \<longrightarrow> cell_at b q \<noteq> v)" by simp
next
  let ?n = "size_sqrt b"
  assume r: "v \<in> allowed_values b \<and>
       (\<forall>q. in_board b q \<and> same_unit b (x, y) q \<longrightarrow> cell_at b q \<noteq> v)"
  then have ne: "\<And>q. in_board b q \<Longrightarrow> same_unit b (x, y) q \<Longrightarrow> cell_at b q \<noteq> v" by blast
  have nr: "v \<notin> (\<lambda>c. cell_at b (x, c)) ` {0..<board_size b}"
  proof
    assume "v \<in> (\<lambda>c. cell_at b (x, c)) ` {0..<board_size b}"
    then obtain c where c: "c < board_size b" "v = cell_at b (x, c)" by auto
    have "cell_at b (x, c) \<noteq> v"
      by (rule ne) (use x c in \<open>simp_all add: in_board_def same_unit_def\<close>)
    with c show False by simp
  qed
  have nc: "v \<notin> (\<lambda>r. cell_at b (r, y)) ` {0..<board_size b}"
  proof
    assume "v \<in> (\<lambda>r. cell_at b (r, y)) ` {0..<board_size b}"
    then obtain r where c: "r < board_size b" "v = cell_at b (r, y)" by auto
    have "cell_at b (r, y) \<noteq> v"
      by (rule ne) (use y c in \<open>simp_all add: in_board_def same_unit_def\<close>)
    with c show False by simp
  qed
  have nb: "v \<notin> cell_at b ` {q. fst q div ?n = x div ?n \<and> snd q div ?n = y div ?n}"
  proof
    assume "v \<in> cell_at b ` {q. fst q div ?n = x div ?n \<and> snd q div ?n = y div ?n}"
    then obtain q where q: "fst q div ?n = x div ?n" "snd q div ?n = y div ?n" "v = cell_at b q"
      by auto
    have "cell_at b q \<noteq> v"
      by (rule ne) (use q block_cell_in_board [OF wf x y] in \<open>simp_all add: same_unit_def\<close>)
    with q show False by simp
  qed
  from r nr nc nb show "v \<in> possible_values b x y"
    by (simp add: possible_values_unfold [OF wf x y])
qed

lemma finite_possible_values:
  "wf_board b \<Longrightarrow> x < board_size b \<Longrightarrow> y < board_size b \<Longrightarrow> finite (possible_values b x y)"
  by (simp add: possible_values_unfold finite_allowed_values)

subsection \<open>Writing one cell\<close>

lemma same_unit_sym: "same_unit b p q \<longleftrightarrow> same_unit b q p"
  unfolding same_unit_def by (rule iffI; elim disjE conjE; simp)

lemma same_unit_refl: "same_unit b p p"
  by (simp add: same_unit_def)

lemma wf_set_cell:
  assumes "wf_board b" and "board b' = set_cell (board b) x y v"
      and "board_size b' = board_size b" and "size_sqrt b' = size_sqrt b"
  shows "wf_board b'"
  using assms by (simp add: wf_board_def list_all_length)

lemma cell_at_set_cell:
  assumes wf: "wf_board b" and x: "x < board_size b" and y: "y < board_size b"
      and b': "board b' = set_cell (board b) x y v"
  shows "cell_at b' q = (if q = (x, y) then v else cell_at b q)"
proof -
  have "x < length (board b)" using wf x by (simp add: wf_board_def)
  moreover have "y < length (board b ! x)" using wf x y by (simp add: wf_row_length)
  ultimately show ?thesis
    by (cases q) (simp add: cell_at_def b' set_cell_nth)
qed




lemma legal_pw_set_cell:
  assumes wf: "wf_board b" and pw: "legal_pw b"
      and x: "x < board_size b" and y: "y < board_size b"
      and z: "cell_at b (x, y) = 0" and v: "v \<noteq> 0"
      and b': "board b' = set_cell (board b) x y v"
              "board_size b' = board_size b" "size_sqrt b' = size_sqrt b"
  shows "legal_pw b' \<longleftrightarrow>
         (\<forall>q. in_board b q \<and> same_unit b (x, y) q \<longrightarrow> cell_at b q \<noteq> v)"
proof
  have cell': "\<And>q. cell_at b' q = (if q = (x, y) then v else cell_at b q)"
    using wf x y b'(1) by (rule cell_at_set_cell)
  have inb: "in_board b' = in_board b" by (simp add: fun_eq_iff in_board_def b')
  have su: "same_unit b' = same_unit b" by (simp add: fun_eq_iff same_unit_def b')
  have ixy: "in_board b (x, y)" using x y by (simp add: in_board_def)
  assume pw': "legal_pw b'"
  show "\<forall>q. in_board b q \<and> same_unit b (x, y) q \<longrightarrow> cell_at b q \<noteq> v"
  proof (intro allI impI notI)
    fix q assume q: "in_board b q \<and> same_unit b (x, y) q" and eq: "cell_at b q = v"
    from eq z v have ne: "q \<noteq> (x, y)" by auto
    have "(x, y) = q"
      by (rule legal_pwD [OF pw']) (use q eq ne v ixy in \<open>simp_all add: inb su cell'\<close>)
    with ne show False by simp
  qed
next
  have cell': "\<And>q. cell_at b' q = (if q = (x, y) then v else cell_at b q)"
    using wf x y b'(1) by (rule cell_at_set_cell)
  have inb: "in_board b' = in_board b" by (simp add: fun_eq_iff in_board_def b')
  have su: "same_unit b' = same_unit b" by (simp add: fun_eq_iff same_unit_def b')
  assume h: "\<forall>q. in_board b q \<and> same_unit b (x, y) q \<longrightarrow> cell_at b q \<noteq> v"
  then have hq: "\<And>q. in_board b q \<Longrightarrow> same_unit b (x, y) q \<Longrightarrow> cell_at b q \<noteq> v" by blast
  show "legal_pw b'"
    unfolding legal_pw_def
  proof (intro allI impI)
    fix p q
    assume a: "in_board b' p \<and> in_board b' q \<and> same_unit b' p q \<and>
               cell_at b' p \<noteq> 0 \<and> cell_at b' p = cell_at b' q"
    then have ip: "in_board b p" and iq: "in_board b q" and s: "same_unit b p q"
      and nz: "cell_at b' p \<noteq> 0" and eq: "cell_at b' p = cell_at b' q"
      by (simp_all add: inb su)
    show "p = q"
    proof (cases "p = (x, y)")
      case pxy: True
      show ?thesis
      proof (cases "q = (x, y)")
        case True with pxy show ?thesis by simp
      next
        case False
        with pxy eq have "cell_at b q = v" by (simp add: cell')
        moreover have "cell_at b q \<noteq> v" using iq s pxy by (intro hq) simp_all
        ultimately show ?thesis by simp
      qed
    next
      case pn: False
      show ?thesis
      proof (cases "q = (x, y)")
        case True
        with pn eq have "cell_at b p = v" by (simp add: cell')
        moreover have "cell_at b p \<noteq> v"
          using ip s True by (intro hq) (simp_all add: same_unit_sym [of b "(x, y)" p])
        ultimately show ?thesis by simp
      next
        case False
        show ?thesis
          by (rule legal_pwD [OF pw ip iq s]) (use nz eq pn False in \<open>simp_all add: cell'\<close>)
      qed
    qed
  qed
qed

lemma same_board_legal:
  "board b' = board b \<Longrightarrow> board_size b' = board_size b \<Longrightarrow> size_sqrt b' = size_sqrt b \<Longrightarrow>
   is_legal_state b' = is_legal_state b"
  by (simp add: is_legal_state_def board_T_def subgrid_at_def)

lemma same_board_wf:
  "board b' = board b \<Longrightarrow> board_size b' = board_size b \<Longrightarrow> size_sqrt b' = size_sqrt b \<Longrightarrow>
   wf_board b' = wf_board b"
  by (simp add: wf_board_def)

lemma same_board_possible_values:
  "board b' = board b \<Longrightarrow> board_size b' = board_size b \<Longrightarrow> size_sqrt b' = size_sqrt b \<Longrightarrow>
   possible_values b' x y = possible_values b x y"
  by (simp add: possible_values_def rows_missing_def cols_missing_def subgrids_missing_def
        sub_grids_def allowed_values_def board_T_def subgrid_at_def get_subgrid_index_def)

text \<open>On a legal board, writing an allowed value into an empty cell keeps the board legal
  exactly when the value is one of the cell's candidates.\<close>

lemma legal_set_cell_iff:
  assumes wf: "wf_board b" and legal: "is_legal_state b"
      and x: "x < board_size b" and y: "y < board_size b"
      and z: "board b ! x ! y = 0" and v: "v \<in> allowed_values b"
      and b': "board b' = set_cell (board b) x y v"
              "board_size b' = board_size b" "size_sqrt b' = size_sqrt b"
  shows "is_legal_state b' \<longleftrightarrow> v \<in> possible_values b x y"
proof -
  have wf': "wf_board b'" using wf b' by (rule wf_set_cell)
  have pw: "legal_pw b" using wf legal by (rule is_legal_imp_pw)
  have v0: "v \<noteq> 0" using v by (simp add: allowed_values_iff)
  have z': "cell_at b (x, y) = 0" using z by (simp add: cell_at_def)
  have "is_legal_state b' \<longleftrightarrow> legal_pw b'" using wf' by (rule is_legal_iff)
  also have "\<dots> \<longleftrightarrow> (\<forall>q. in_board b q \<and> same_unit b (x, y) q \<longrightarrow> cell_at b q \<noteq> v)"
    using wf pw x y z' v0 b' by (rule legal_pw_set_cell)
  also have "\<dots> \<longleftrightarrow> v \<in> possible_values b x y"
    using v by (simp add: possible_values_iff [OF wf x y])
  finally show ?thesis .
qed

section \<open>The candidate cache under apply and undo\<close>

subsection \<open>One group of the update\<close>

lemma cache_agrees_refl: "cache_agrees m m"
  by (simp add: cache_agrees_def)



lemma update_field_keys:
  "distinct (map fst c) \<Longrightarrow> distinct (map fst (fst (update_field v a (c, R, k))))"
  by (cases "map_of c a") (simp_all add: update_field_def distinct_update)

lemma fold_update_field_keys:
  "distinct (map fst c) \<Longrightarrow> distinct (map fst (fst (fold (update_field v) G (c, R, k))))"
proof (induction G arbitrary: c R k)
  case Nil then show ?case by simp
next
  case (Cons a G)
  obtain c1 R1 k1 where st: "update_field v a (c, R, k) = (c1, R1, k1)"
    by (cases "update_field v a (c, R, k)") auto
  with update_field_keys [OF Cons.prems, of v a R k] have "distinct (map fst c1)" by simp
  then show ?case by (simp add: st Cons.IH)
qed


lemma update_group_keys: "distinct (map fst c) \<Longrightarrow> distinct (map fst (update_group v G c))"
proof -
  assume d: "distinct (map fst c)"
  obtain c1 R1 k1 where st: "fold (update_field v) G (c, {}, 0) = (c1, R1, k1)"
    by (cases "fold (update_field v) G (c, {}, 0)") auto
  have "distinct (map fst c1)" using fold_update_field_keys [OF d, of v G "{}" 0] by (simp add: st)
  then show ?thesis by (simp add: update_group_def st distinct_update)
qed



lemma set_cells: "set (cells b) = {p. in_board b p}"
  by (auto simp: cells_def in_board_def)

lemma distinct_cells: "distinct (cells b)"
  by (simp add: cells_def distinct_product)

lemma set_empty_cells: "set (empty_cells b) = {p. in_board b p \<and> cell_at b p = 0}"
  by (auto simp: empty_cells_def set_cells cell_at_def EMPTY_SPACE_def)

lemma distinct_empty_cells: "distinct (empty_cells b)"
  by (simp add: empty_cells_def distinct_cells)

lemma get_move_cache_keys: "map fst (get_move_cache b) = empty_cells b"
  by (simp add: get_move_cache_def o_def case_prod_unfold)

lemma map_of_get_move_cache:
  "map_of (get_move_cache b) p =
   (if in_board b p \<and> cell_at b p = 0 then Some (possible_values b (fst p) (snd p)) else None)"
proof -
  have "get_move_cache b = map (\<lambda>k. (k, possible_values b (fst k) (snd k))) (empty_cells b)"
    by (simp add: get_move_cache_def case_prod_unfold)
  then have "map_of (get_move_cache b) =
             (Some \<circ> (\<lambda>k. possible_values b (fst k) (snd k))) |` set (empty_cells b)"
    by (simp only: map_of_map_restrict)
  then show ?thesis by (simp add: restrict_map_def set_empty_cells)
qed



subsection \<open>A move applied\<close>






lemma same_board_get_move_cache:
  assumes "board b' = board b" "board_size b' = board_size b" "size_sqrt b' = size_sqrt b"
  shows "get_move_cache b' = get_move_cache b"
proof -
  have "\<And>x y. possible_values b' x y = possible_values b x y"
    using assms by (rule same_board_possible_values)
  then show ?thesis by (simp add: get_move_cache_def empty_cells_def cells_def assms)
qed

lemma cache_key_present:
  assumes "cache_agrees (map_of c) (map_of (get_move_cache b))"
      and "in_board b p" and "cell_at b p = 0"
  shows "map_of c p \<noteq> None"
proof -
  have g: "map_of (get_move_cache b) p \<noteq> None" using assms(2,3) by (simp add: map_of_get_move_cache)
  show ?thesis
  proof (cases "p = (0, 0)")
    case True
    from assms(1) have "map_of c (0, 0) = map_of (get_move_cache b) (0, 0) \<or> map_of c (0, 0) = Some {}"
      unfolding cache_agrees_def by blast
    with g True show ?thesis by auto
  next
    case False
    with assms(1) have "map_of c p = map_of (get_move_cache b) p"
      unfolding cache_agrees_def by blast
    with g show ?thesis by simp
  qed
qed


subsection \<open>Apply, then undo\<close>

lemma fresh_cache_ok: "move_cache b = Some (get_move_cache b) \<Longrightarrow> cache_ok b"
  by (simp add: cache_ok_def cache_agrees_refl)

lemma cache_get_legal_moves_cache_ok:
  assumes "cache_ok b"
  shows "cache_ok (snd (cache_get_legal_moves b)) \<and>
         board (snd (cache_get_legal_moves b)) = board b \<and>
         board_size (snd (cache_get_legal_moves b)) = board_size b \<and>
         size_sqrt (snd (cache_get_legal_moves b)) = size_sqrt b \<and>
         move_cache (snd (cache_get_legal_moves b)) \<noteq> None"
proof (cases "move_cache b")
  case None
  have "get_move_cache (b\<lparr>move_cache := Some (get_move_cache b)\<rparr>) = get_move_cache b"
    by (rule same_board_get_move_cache) simp_all
  then show ?thesis using None
    by (simp add: cache_get_legal_moves_def Let_def cache_ok_def cache_agrees_refl)
next
  case (Some c)
  have e: "b\<lparr>move_cache := Some c\<rparr> = b" using Some by simp
  have "snd (cache_get_legal_moves b) = b"
    by (simp add: cache_get_legal_moves_def Let_def Some e)
  then show ?thesis using Some assms by simp
qed

lemma apply_move_succeeds:
  assumes wf: "wf_board b" and x: "x < board_size b" and y: "y < board_size b"
      and fit: "fits_int64 v"
      and key: "\<And>c. move_cache b = Some c \<Longrightarrow> map_of c (x, y) \<noteq> None"
  shows "\<exists>b1. apply_move b (x, y, v) = Inr b1 \<and> board b1 = set_cell (board b) x y v \<and>
              board_size b1 = board_size b \<and> size_sqrt b1 = size_sqrt b \<and>
              (move_cache b1 = None \<longleftrightarrow> move_cache b = None)"
proof -
  have lx: "x < length (board b)" using wf x by (simp add: wf_board_def)
  have ly: "y < length (board b ! x)" using wf x y by (simp add: wf_row_length)
  show ?thesis
  proof (cases "move_cache b")
    case None
    then show ?thesis using lx ly fit by (simp add: apply_move_def)
  next
    case (Some c)
    with key have "map_of c (x, y) \<noteq> None" by simp
    then show ?thesis using Some lx ly fit by (auto simp: apply_move_def Let_def)
  qed
qed

lemma undo_move_cache_ok:
  assumes wf: "wf_board b" and x: "x < board_size b" and y: "y < board_size b"
  shows "\<exists>b'. undo_move b (x, y, v) = Inr b' \<and> board b' = set_cell (board b) x y EMPTY_SPACE \<and>
              board_size b' = board_size b \<and> size_sqrt b' = size_sqrt b \<and>
              (move_cache b' = None \<longleftrightarrow> move_cache b = None) \<and>
              (move_cache b \<noteq> None \<longrightarrow> move_cache b' = Some (get_move_cache b')) \<and> cache_ok b'"
proof -
  have lx: "x < length (board b)" using wf x by (simp add: wf_board_def)
  have ly: "y < length (board b ! x)" using wf x y by (simp add: wf_row_length)
  define b1 where "b1 = b\<lparr>board := set_cell (board b) x y EMPTY_SPACE\<rparr>"
  show ?thesis
  proof (cases "move_cache b")
    case None
    then show ?thesis using lx ly by (simp add: undo_move_def Let_def cache_ok_def)
  next
    case (Some c)
    define b' where "b' = b1\<lparr>move_cache := Some (get_move_cache b1)\<rparr>"
    have u: "undo_move b (x, y, v) = Inr b'"
      using lx ly Some by (simp add: undo_move_def Let_def b'_def b1_def)
    have g: "get_move_cache b' = get_move_cache b1"
      by (rule same_board_get_move_cache) (simp_all add: b'_def)
    then have "move_cache b' = Some (get_move_cache b')" by (simp add: b'_def)
    then have "cache_ok b'" by (rule fresh_cache_ok)
    then show ?thesis using u g Some by (simp add: b'_def b1_def)
  qed
qed

text \<open>
  C5. On a well-formed board, when the target cell of \<open>m = (x, y, v)\<close> holds \<open>EMPTY_SPACE\<close>
  and \<open>v\<close> is a value the 64-bit array can hold, \<open>apply_move m\<close> writes \<open>v\<close> and
  \<open>undo_move m\<close> after it gives back the original cell contents and the original
  fingerprint, for any digest; both calls succeed. A cache that the board carries is
  one that the class maintains (\<open>cache_ok\<close>): \<open>cache_get_legal_moves\<close> creates it
  (\<open>cache_get_legal_moves_cache_ok\<close>), \<open>apply_move\<close> keeps it for a move onto an empty
  cell with a value other than \<open>EMPTY_SPACE\<close> (\<open>apply_move_cache_ok\<close>), \<open>undo_move\<close> always
  (\<open>undo_move_cache_ok\<close>), and so does the round trip itself.
\<close>

theorem apply_undo_restores:
  assumes "wf_board b" and "x < board_size b" and "y < board_size b"
      and "board b ! x ! y = EMPTY_SPACE" and "fits_int64 v" and "cache_ok b"
  shows "\<exists>b1 b2. apply_move b (x, y, v) = Inr b1 \<and> board b1 ! x ! y = v \<and>
                 undo_move b1 (x, y, v) = Inr b2 \<and>
                 board b2 = board b \<and> hash_board md5 b2 = hash_board md5 b \<and>
                 board_size b2 = board_size b \<and> size_sqrt b2 = size_sqrt b \<and> cache_ok b2"
proof -
  have lx: "x < length (board b)" using assms(1,2) by (simp add: wf_board_def)
  have ly: "y < length (board b ! x)" using assms(1,2,3) by (simp add: wf_row_length)
  have z: "cell_at b (x, y) = 0" using assms(4) by (simp add: cell_at_def EMPTY_SPACE_def)
  have key: "map_of c (x, y) \<noteq> None" if "move_cache b = Some c" for c
  proof -
    from that assms(6) have "cache_agrees (map_of c) (map_of (get_move_cache b))"
      by (simp add: cache_ok_def)
    then show ?thesis using _ z by (rule cache_key_present) (simp add: in_board_def assms(2,3))
  qed
  from apply_move_succeeds [OF assms(1,2,3,5) key] obtain b1 where
    b1: "apply_move b (x, y, v) = Inr b1" "board b1 = set_cell (board b) x y v"
        "board_size b1 = board_size b" "size_sqrt b1 = size_sqrt b"
    by blast
  have wf1: "wf_board b1" using assms(1) b1(2,3,4) by (rule wf_set_cell)
  from undo_move_cache_ok [OF wf1, of x y v] assms(2,3) b1(3) obtain b2 where
    b2: "undo_move b1 (x, y, v) = Inr b2" "board b2 = set_cell (board b1) x y EMPTY_SPACE"
        "board_size b2 = board_size b1" "size_sqrt b2 = size_sqrt b1" "cache_ok b2"
    by auto
  have "set_cell (set_cell (board b) x y v) x y EMPTY_SPACE = board b"
    using set_cell_restore [of "board b" x y v] assms(4) by simp
  then have eq: "board b2 = board b" by (simp add: b2(2) b1(2))
  have "board b1 ! x ! y = v" using lx ly by (simp add: b1(2) set_cell_nth)
  with b1 b2 eq show ?thesis by (simp add: hash_board_def)
qed

lemma wf_board_s0: "wf_board board_s0"
  by (simp add: wf_board_def board_s0_def mk_board_def grid_s0_def)

lemma cache_ok_board_s0: "cache_ok board_s0"
proof -
  have "get_move_cache board_s0 = get_move_cache (mk_board 2 grid_s0)"
    by (rule same_board_get_move_cache) (simp_all add: board_s0_def)
  then show ?thesis by (simp add: cache_ok_def board_s0_def cache_agrees_refl)
qed

theorem apply_undo_restores_witness:
  "\<exists>b1 b2. apply_move board_s0 (2, 3, 3) = Inr b1 \<and> board b1 ! 2 ! 3 = 3 \<and>
           undo_move b1 (2, 3, 3) = Inr b2 \<and> board b2 = grid_s0 \<and>
           hash_board poly_digest b2 = hash_board poly_digest board_s0 \<and> cache_ok b2"
proof -
  have "board board_s0 ! 2 ! 3 = EMPTY_SPACE" "board_size board_s0 = 4" "board board_s0 = grid_s0"
    by (simp_all add: board_s0_def mk_board_def grid_s0_def EMPTY_SPACE_def)
  moreover have "fits_int64 3" by (simp add: fits_int64_def)
  ultimately show ?thesis
    using apply_undo_restores [OF wf_board_s0 _ _ _ _ cache_ok_board_s0, of 2 3 3 poly_digest]
    by auto
qed

subsection \<open>Sequences of calls\<close>








section \<open>The four move generators\<close>

subsection \<open>Improved and Sorted\<close>

lemma moves_of_simps:
  "moves_of [] = {}" "moves_of (a # d) = set (snd a) \<union> moves_of d"
  "moves_of (d @ d') = moves_of d \<union> moves_of d'"
  by (auto simp: moves_of_def)

lemma moves_of_concat: "set (concat (map snd d)) = moves_of d"
  by (simp add: moves_of_def)

lemma update_moves:
  "map_of d k = Some ms \<Longrightarrow> moves_of (AList.update k (ms @ [m]) d) = insert m (moves_of d)"
proof (induction d)
  case Nil
  then show ?case by simp
next
  case (Cons a d)
  obtain k' v' where a: "a = (k', v')" by (cases a)
  show ?case
  proof (cases "k' = k")
    case True
    with Cons.prems a have "v' = ms" by simp
    with True a show ?thesis by (simp add: moves_of_simps)
  next
    case False
    with Cons.prems a have "map_of d k = Some ms" by simp
    then have "moves_of (AList.update k (ms @ [m]) d) = insert m (moves_of d)" by (rule Cons.IH)
    with False a show ?thesis by (simp add: moves_of_simps)
  qed
qed

lemma setdefault_append_moves: "moves_of (setdefault_append k m d) = insert m (moves_of d)"
  by (cases "map_of d k") (simp_all add: setdefault_append_def update_moves moves_of_simps)

lemma fold_setdefault_append_moves:
  "moves_of (fold (\<lambda>i. setdefault_append k (f i)) vs d) = f ` set vs \<union> moves_of d"
  by (induction vs arbitrary: d) (simp_all add: setdefault_append_moves)

lemma candidates_cell_moves: "candidates b = \<Union> (cell_moves b ` set (empty_cells b))"
proof (rule set_eqI)
  fix m :: move
  obtain x y v where m: "m = (x, y, v)" by (cases m)
  have "m \<in> \<Union> (cell_moves b ` set (empty_cells b)) \<longleftrightarrow>
        (x, y) \<in> set (empty_cells b) \<and> v \<in> possible_values b x y"
    unfolding m cell_moves_def by force
  then show "m \<in> candidates b \<longleftrightarrow> m \<in> \<Union> (cell_moves b ` set (empty_cells b))"
    by (simp add: m candidates_def set_empty_cells in_board_def cell_at_def EMPTY_SPACE_def)
qed

lemma dead_end_iff:
  "dead_end b \<longleftrightarrow> (\<exists>p\<in>set (empty_cells b). possible_values b (fst p) (snd p) = {})"
  by (auto simp: dead_end_def set_empty_cells in_board_def cell_at_def EMPTY_SPACE_def)

lemma improved_loop_None:
  "improved_loop b cs acc = None \<longleftrightarrow>
   (\<exists>p\<in>set (filter (\<lambda>(x, y). board b ! x ! y = EMPTY_SPACE) cs).
      possible_values b (fst p) (snd p) = {})"
  by (induction b cs acc rule: improved_loop.induct) simp_all

lemma improved_loop_Some:
  assumes "improved_loop b cs acc = Some d"
      and "\<And>p. p \<in> set cs \<Longrightarrow> finite (possible_values b (fst p) (snd p))"
  shows "moves_of d =
         moves_of acc \<union>
         \<Union> (cell_moves b ` set (filter (\<lambda>(x, y). board b ! x ! y = EMPTY_SPACE) cs))"
  using assms
proof (induction b cs acc rule: improved_loop.induct)
  case (1 b legal_moves)
  then show ?case by simp
next
  case (2 b x y cs legal_moves)
  show ?case
  proof (cases "board b ! x ! y = EMPTY_SPACE")
    case False
    with 2 show ?thesis by simp
  next
    case True
    have fin: "finite (possible_values b x y)" using "2.prems"(2) [of "(x, y)"] by simp
    from True "2.prems"(1) have ne: "possible_values b x y \<noteq> {}" by (auto split: if_splits)
    let ?acc = "fold (\<lambda>i. setdefault_append (x, y) (x, y, i))
                  (sorted_list_of_set (possible_values b x y)) legal_moves"
    have run: "improved_loop b cs ?acc = Some d" using True ne "2.prems"(1) by simp
    have "moves_of d =
          moves_of ?acc \<union>
          \<Union> (cell_moves b ` set (filter (\<lambda>(x, y). board b ! x ! y = EMPTY_SPACE) cs))"
      using True ne run "2.prems"(2) by (intro "2.IH"(1)) simp_all
    moreover have "moves_of ?acc = cell_moves b (x, y) \<union> moves_of legal_moves"
      using fin by (simp add: fold_setdefault_append_moves cell_moves_def)
    ultimately show ?thesis using True by auto
  qed
qed

lemma set_py_sorted_reverse: "set (py_sorted_reverse k xs) = set xs"
  by (simp add: py_sorted_reverse_def)

lemma empty_cells_finite_values:
  assumes "wf_board b" and "p \<in> set (cells b)"
  shows "finite (possible_values b (fst p) (snd p))"
  using assms by (intro finite_possible_values) (simp_all add: set_cells in_board_def)

lemma improved_moves:
  assumes wf: "wf_board b"
  shows "set (improved_get_legal_moves b version) = (if dead_end b then {} else candidates b)"
proof (cases "improved_loop b (cells b) []")
  case None
  then have "dead_end b"
    by (simp add: improved_loop_None dead_end_iff empty_cells_def)
  with None show ?thesis by (simp add: improved_get_legal_moves_def)
next
  case (Some d)
  then have nd: "\<not> dead_end b"
    using improved_loop_None [of b "cells b" "[]"] by (simp add: dead_end_iff empty_cells_def)
  have "moves_of d = candidates b"
    using improved_loop_Some [OF Some empty_cells_finite_values [OF wf]]
    by (simp add: candidates_cell_moves empty_cells_def moves_of_simps)
  moreover have "set (concat (py_sorted_reverse length (map snd d))) = moves_of d"
    by (simp add: set_py_sorted_reverse moves_of_def)
  moreover have "set (concat (map snd d)) = moves_of d"
    by (simp add: moves_of_def)
  ultimately have "set (improved_get_legal_moves b version) = candidates b"
    unfolding improved_get_legal_moves_def Some by (simp only: option.case if_distrib [of set] if_cancel)
  then show ?thesis using nd by simp
qed

subsection \<open>Cached and Naive\<close>

lemma cache_loop_set:
  assumes "\<And>item. item \<in> set items \<Longrightarrow> finite (snd item)"
  shows "set (cache_loop items acc) =
         (if \<exists>item\<in>set items. snd item = {} then {}
          else set acc \<union> (\<Union>item\<in>set items. (\<lambda>v. (fst (fst item), snd (fst item), v)) ` snd item))"
  using assms
proof (induction items acc rule: cache_loop.induct)
  case (1 legal_moves)
  show ?case by simp
next
  case (2 x y moves items legal_moves)
  show ?case
  proof (cases "moves = {}")
    case True
    then show ?thesis by simp
  next
    case False
    have fin: "finite moves" using "2.prems" [of "((x, y), moves)"] by simp
    have "set (cache_loop items (legal_moves @ map (\<lambda>v. (x, y, v)) (sorted_list_of_set moves))) =
          (if \<exists>item\<in>set items. snd item = {} then {}
           else set (legal_moves @ map (\<lambda>v. (x, y, v)) (sorted_list_of_set moves)) \<union>
                (\<Union>item\<in>set items. (\<lambda>v. (fst (fst item), snd (fst item), v)) ` snd item))"
      using False "2.prems" by (intro "2.IH") simp_all
    then show ?thesis using False fin by (simp add: Un_assoc)
  qed
qed

lemma set_get_move_cache:
  "set (get_move_cache b) = (\<lambda>p. (p, possible_values b (fst p) (snd p))) ` set (empty_cells b)"
  by (simp add: get_move_cache_def case_prod_unfold)

lemma cache_items_moves:
  assumes wf: "wf_board b" and c: "set c = set (get_move_cache b)"
  shows "set (cache_loop (py_sorted_reverse (\<lambda>item. card (snd item)) c) []) =
         (if dead_end b then {} else candidates b)"
proof -
  let ?items = "py_sorted_reverse (\<lambda>item. card (snd item)) c"
  have items: "set ?items = (\<lambda>p. (p, possible_values b (fst p) (snd p))) ` set (empty_cells b)"
    by (simp add: set_py_sorted_reverse c set_get_move_cache)
  have fin: "finite (snd item)" if "item \<in> set ?items" for item
  proof -
    from that items obtain p where "p \<in> set (empty_cells b)"
      "item = (p, possible_values b (fst p) (snd p))" by auto
    then show ?thesis using empty_cells_finite_values [OF wf, of p] by (simp add: empty_cells_def)
  qed
  have "(\<exists>item\<in>set ?items. snd item = {}) \<longleftrightarrow> dead_end b"
    unfolding items dead_end_iff by simp
  moreover have "(\<Union>item\<in>set ?items. (\<lambda>v. (fst (fst item), snd (fst item), v)) ` snd item) =
                 candidates b"
    unfolding items candidates_cell_moves by (simp add: cell_moves_def)
  ultimately show ?thesis using cache_loop_set [of ?items "[]", OF fin] by simp
qed

lemma fst_cache_get_legal_moves:
  "fst (cache_get_legal_moves b) =
   cache_loop (py_sorted_reverse (\<lambda>item. card (snd item))
                 (case move_cache b of None \<Rightarrow> get_move_cache b | Some c \<Rightarrow> c)) []"
  by (simp add: cache_get_legal_moves_def Let_def)

lemma cached_moves:
  assumes wf: "wf_board b"
      and c: "case move_cache b of None \<Rightarrow> True
              | Some c \<Rightarrow> distinct (map fst c) \<and> map_of c = map_of (get_move_cache b)"
  shows "set (fst (cache_get_legal_moves b)) = (if dead_end b then {} else candidates b)"
proof (cases "move_cache b")
  case None
  then show ?thesis using cache_items_moves [OF wf refl]
    by (simp only: fst_cache_get_legal_moves option.case)
next
  case (Some c')
  with c have d: "distinct (map fst c')" and m: "map_of c' = map_of (get_move_cache b)" by simp_all
  have "distinct (map fst (get_move_cache b))"
    by (simp add: get_move_cache_keys distinct_empty_cells)
  with d m have "set c' = set (get_move_cache b)" by (simp add: map_of_inject_set)
  then show ?thesis using cache_items_moves [OF wf, of c'] Some
    by (simp only: fst_cache_get_legal_moves option.case)
qed

lemma fold_naive_trial:
  "fold (naive_trial b x y) vs (L, F) =
     (L @ map (\<lambda>i. (x, y, i))
            (filter (\<lambda>i. is_legal_state (b\<lparr>board := set_cell (board b) x y i\<rparr>)) vs),
      if filter (\<lambda>i. is_legal_state (b\<lparr>board := set_cell (board b) x y i\<rparr>)) vs = [] then F
      else insert (x, y) F)"
  by (induction vs arbitrary: L F) (simp_all add: naive_trial_def)

lemma naive_field_step:
  "naive_field b (x, y) (L, F, k) =
     (if board b ! x ! y = EMPTY_SPACE
      then (L @ map (\<lambda>i. (x, y, i)) (legal_values b x y),
            if legal_values b x y = [] then F else insert (x, y) F, k + 1)
      else (L, F, k))"
  by (simp add: naive_field_def fold_naive_trial legal_values_def)

lemma fold_naive_field:
  "fold (naive_field b) cs (L, F, k) =
     (L @ concat (map (\<lambda>p. map (\<lambda>i. (fst p, snd p, i)) (legal_values b (fst p) (snd p)))
                   (filter (\<lambda>(x, y). board b ! x ! y = EMPTY_SPACE) cs)),
      F \<union> {p \<in> set (filter (\<lambda>(x, y). board b ! x ! y = EMPTY_SPACE) cs).
              legal_values b (fst p) (snd p) \<noteq> []},
      k + length (filter (\<lambda>(x, y). board b ! x ! y = EMPTY_SPACE) cs))"
proof (induction cs arbitrary: L F k)
  case Nil
  show ?case by simp
next
  case (Cons p cs)
  obtain x y where p: "p = (x, y)" by (cases p)
  show ?case
  proof (cases "board b ! x ! y = EMPTY_SPACE")
    case False
    then show ?thesis by (simp add: p naive_field_step Cons.IH)
  next
    case True
    show ?thesis
    proof (cases "legal_values b x y = []")
      case e: True
      with True show ?thesis
        by (auto simp add: p naive_field_step Cons.IH)
    next
      case ne: False
      with True show ?thesis
        by (auto simp add: p naive_field_step Cons.IH)
    qed
  qed
qed

subsection \<open>The same moves\<close>

lemma legal_values_set:
  assumes wf: "wf_board b" and legal: "is_legal_state b"
      and x: "x < board_size b" and y: "y < board_size b"
      and z: "board b ! x ! y = EMPTY_SPACE"
  shows "set (legal_values b x y) = possible_values b x y"
proof (rule set_eqI)
  fix i :: int
  have z0: "board b ! x ! y = 0" using z by (simp add: EMPTY_SPACE_def)
  show "i \<in> set (legal_values b x y) \<longleftrightarrow> i \<in> possible_values b x y"
  proof (cases "i \<in> allowed_values b")
    case True
    have "is_legal_state (b\<lparr>board := set_cell (board b) x y i\<rparr>) \<longleftrightarrow> i \<in> possible_values b x y"
      using wf legal x y z0 True by (rule legal_set_cell_iff) simp_all
    with True show ?thesis by (simp add: legal_values_def allowed_values_iff)
  next
    case False
    then have "i \<notin> possible_values b x y" using possible_values_iff [OF wf x y, of i] by simp
    moreover from False have "\<not> (1 \<le> i \<and> i \<le> int (board_size b))" by (simp add: allowed_values_iff)
    ultimately show ?thesis unfolding legal_values_def by auto
  qed
qed

lemma naive_get_legal_moves_unfold:
  "naive_get_legal_moves b =
     (if card {p \<in> set (empty_cells b). legal_values b (fst p) (snd p) \<noteq> []} = length (empty_cells b)
      then concat (map (\<lambda>p. map (\<lambda>i. (fst p, snd p, i)) (legal_values b (fst p) (snd p)))
                     (empty_cells b))
      else [])"
  by (simp add: naive_get_legal_moves_def fold_naive_field empty_cells_def)

lemma naive_moves:
  assumes wf: "wf_board b" and legal: "is_legal_state b"
  shows "set (naive_get_legal_moves b) = (if dead_end b then {} else candidates b)"
proof -
  let ?E = "set (empty_cells b)"
  let ?F = "{p \<in> ?E. legal_values b (fst p) (snd p) \<noteq> []}"
  have lv: "set (legal_values b (fst p) (snd p)) = possible_values b (fst p) (snd p)"
    if "p \<in> ?E" for p
    using that wf legal
    by (intro legal_values_set)
       (simp_all add: set_empty_cells in_board_def cell_at_def EMPTY_SPACE_def)
  have F: "?F = {p \<in> ?E. possible_values b (fst p) (snd p) \<noteq> {}}"
  proof -
    have "legal_values b (fst p) (snd p) \<noteq> [] \<longleftrightarrow> possible_values b (fst p) (snd p) \<noteq> {}"
      if "p \<in> ?E" for p
      using lv [OF that] by (metis set_empty)
    then show ?thesis by blast
  qed
  have cardE: "card ?E = length (empty_cells b)"
    by (rule distinct_card) (rule distinct_empty_cells)
  have full: "card ?F = length (empty_cells b) \<longleftrightarrow> \<not> dead_end b"
  proof
    assume "card ?F = length (empty_cells b)"
    then have "card ?F = card ?E" by (simp only: cardE)
    moreover have "?F \<subseteq> ?E" by blast
    ultimately have "?F = ?E" by (intro card_subset_eq) simp_all
    then have "\<forall>p\<in>?E. possible_values b (fst p) (snd p) \<noteq> {}" unfolding F by blast
    then show "\<not> dead_end b" by (simp add: dead_end_iff)
  next
    assume "\<not> dead_end b"
    then have "\<forall>p\<in>?E. possible_values b (fst p) (snd p) \<noteq> {}" by (simp add: dead_end_iff)
    then have "?F = ?E" unfolding F by blast
    then show "card ?F = length (empty_cells b)" by (simp only: cardE)
  qed
  have moves: "set (concat (map (\<lambda>p. map (\<lambda>i. (fst p, snd p, i)) (legal_values b (fst p) (snd p)))
                     (empty_cells b))) = candidates b"
    unfolding candidates_cell_moves by (simp add: cell_moves_def lv)
  show ?thesis
    unfolding naive_get_legal_moves_unfold using full moves by simp
qed

lemma get_legal_moves_set:
  assumes "wf_board b" and "is_legal_state b"
      and "case move_cache b of None \<Rightarrow> True
           | Some c \<Rightarrow> distinct (map fst c) \<and> map_of c = map_of (get_move_cache b)"
  shows "set (fst (get_legal_moves b version)) = (if dead_end b then {} else candidates b)"
proof (cases version)
  case NAIVE
  then show ?thesis using naive_moves [OF assms(1,2)] by (simp add: get_legal_moves_def)
next
  case IMPROVED
  then show ?thesis using improved_moves [OF assms(1), of IMPROVED] by (simp add: get_legal_moves_def)
next
  case SORTED
  then show ?thesis using improved_moves [OF assms(1), of SORTED] by (simp add: get_legal_moves_def)
next
  case STORE_LEGAL
  then show ?thesis using cached_moves [OF assms(1,3)] by (simp add: get_legal_moves_def)
qed

text \<open>
  C1, as stated, fails in two ways. On the illegal board \<open>grid_bad\<close> every trial of the
  naive generator fails the legality check of the whole board, so it returns no move,
  while the improved generator only looks at the values missing from the units of each
  cell and returns moves such as \<open>(0, 2, 2)\<close>. On \<open>board_s1\<close>, legal and reached from a
  fresh cache by one \<open>apply_move\<close>, the cache carries the dead-end mark and the cached
  generator returns no move, while the improved generator returns moves such as
  \<open>(0, 0, 1)\<close>.
\<close>

theorem strategies_differ:
  "fst (get_legal_moves (mk_board 2 grid_bad) NAIVE) = [] \<and>
   (0, 2, 2) \<in> set (fst (get_legal_moves (mk_board 2 grid_bad) IMPROVED)) \<and>
   fst (get_legal_moves board_s1 STORE_LEGAL) = [] \<and>
   (0, 0, 1) \<in> set (fst (get_legal_moves board_s1 IMPROVED))"
  by code_simp

text \<open>
  C1, amended. On a well-formed legal board whose cache, if it carries one, holds each key
  once and agrees with a rebuild, the four strategies return the same set of moves: no
  move at all when some empty cell has no candidate, and otherwise every candidate of
  every empty cell.
\<close>

theorem strategies_same_moves:
  assumes "wf_board b" and "is_legal_state b"
      and "case move_cache b of None \<Rightarrow> True
           | Some c \<Rightarrow> distinct (map fst c) \<and> map_of c = map_of (get_move_cache b)"
  shows "set (fst (get_legal_moves b v)) = set (fst (get_legal_moves b v')) \<and>
         set (fst (get_legal_moves b v)) = (if dead_end b then {} else candidates b)"
  using get_legal_moves_set [OF assms, of v] get_legal_moves_set [OF assms, of v'] by simp

theorem strategies_same_moves_witness:
  "set (fst (get_legal_moves (mk_board 2 grid_r) NAIVE)) =
   set (fst (get_legal_moves (mk_board 2 grid_r) STORE_LEGAL))"
proof -
  have wf: "wf_board (mk_board 2 grid_r)"
    by (simp add: wf_board_def mk_board_def grid_r_def)
  have lg: "is_legal_state (mk_board 2 grid_r)"
    by code_simp
  have c: "case move_cache (mk_board 2 grid_r) of None \<Rightarrow> True
           | Some c \<Rightarrow> distinct (map fst c) \<and> map_of c = map_of (get_move_cache (mk_board 2 grid_r))"
    by (simp add: mk_board_def)
  from strategies_same_moves [OF wf lg c, of NAIVE STORE_LEGAL] show ?thesis by simp
qed

end
